theory Spec2Isabelle
  imports Main "HOL-Library.Word"
begin

unbundle bit_operations_syntax

section \<open>The nRF5 entropy driver (drivers/entropy/entropy\_nrf5.c)\<close>

text \<open>
  The driver keeps two ring pools of random bytes, one drained from interrupt
  context and one drained by threads, both filled by the RNG interrupt handler.
  The C integers are modelled at their width: \<open>u8_t\<close> is an 8-bit word, \<open>u16_t\<close>
  a 16-bit word, \<open>u32_t\<close> a 32-bit word, and \<open>int\<close> return values are
  mathematical integers (an errno value, a byte or a 16-bit length: all fit the
  32-bit \<open>int\<close> of the target).
\<close>

type_synonym u8_t = "8 word"
type_synonym u16_t = "16 word"
type_synonym u32_t = "32 word"

subsection \<open>Constants of the kernel headers\<close>

text \<open>
  Modelled from the spec: the headers that declare the error numbers, the
  busy-wait flag and \<open>UINT8_MAX\<close> (\<open>errno.h\<close>, \<open>entropy.h\<close>, \<open>stdint.h\<close>)
  are not among the sources. \<open>ENOBUFS\<close> is the specification's NoBufferSpace,
  \<open>EBUSY\<close> its Busy, \<open>EAGAIN\<close> the "not ready" of the sampling primitive,
  \<open>ENTROPY_BUSYWAIT\<close> the busy-wait flag and \<open>UINT8_MAX\<close> the chunk size 255.
  The numbers are those of Zephyr's headers; the driver only compares the error
  numbers with each other and tests results against zero, so all that matters
  is that they are positive and distinct.
\<close>

definition EAGAIN :: int where "EAGAIN = 11"
definition EBUSY :: int where "EBUSY = 16"
definition ENOBUFS :: int where "ENOBUFS = 105"
definition UINT8_MAX :: u16_t where "UINT8_MAX = 255"
definition ENTROPY_BUSYWAIT :: u32_t where "ENTROPY_BUSYWAIT = 1"

subsection \<open>The RNG peripheral\<close>

text \<open>
  Modelled from the spec: the hardware access functions of \<open>nrf_rng.h\<close>
  (\<open>nrf_rng_event_get\<close>, \<open>nrf_rng_event_clear\<close>, \<open>nrf_rng_random_value_get\<close>,
  \<open>nrf_rng_task_trigger\<close>) and the interrupt controller are not among the
  sources. The specification has a "value ready" flag, a generated byte
  register, start and stop control writes, and an interrupt line that can be
  enabled and disabled. The peripheral is a record of these: the VALRDY event
  flag, the value register, whether the RNG interrupt line is enabled, and the
  tasks that were triggered so far, oldest first. The task list is the
  observable effect of \<open>nrf_rng_task_trigger\<close>.
\<close>

datatype nrf_rng_task = NRF_RNG_TASK_START | NRF_RNG_TASK_STOP

record nrf_rng =
  event_valrdy :: bool
  rng_value :: u8_t
  irq_enabled :: bool
  tasks :: "nrf_rng_task list"

definition nrf_rng_task_trigger :: "nrf_rng_task \<Rightarrow> nrf_rng \<Rightarrow> nrf_rng" where
  "nrf_rng_task_trigger t hw = hw\<lparr>tasks := tasks hw @ [t]\<rparr>"

definition nrf_rng_event_clear :: "nrf_rng \<Rightarrow> nrf_rng" where
  "nrf_rng_event_clear hw = hw\<lparr>event_valrdy := False\<rparr>"

text \<open>
  \<open>random_byte_get\<close>: the value register if VALRDY is set (and the event is
  cleared), \<open>-EAGAIN\<close> otherwise. The interrupt lock around it has no effect in
  a sequential model.
\<close>

definition random_byte_get :: "nrf_rng \<Rightarrow> int \<times> nrf_rng" where
  "random_byte_get hw =
     (if event_valrdy hw then (uint (rng_value hw), nrf_rng_event_clear hw)
      else (- EAGAIN, hw))"

subsection \<open>The ring pool\<close>

text \<open>
  \<open>struct rng_pool\<close>: the four \<open>u8_t\<close> fields and the byte array that follows
  them in memory. The array has \<open>count\<close> slots (\<open>RNG_POOL_DEFINE\<close> reserves
  that many); the field \<open>last\<close> of the source is \<open>last_idx\<close> here.
\<close>

record rng_pool =
  count :: u8_t
  threshold :: u8_t
  first :: u8_t
  last_idx :: u8_t
  rand :: "u8_t list"

text \<open>
  The copy loop \<open>while (avail--) { *(--d) = *s++; }\<close>: \<open>d\<close> is an index into the
  destination buffer and \<open>s\<close> an index into the pool's array. The loop runs
  \<open>avail\<close> times; the final \<open>d\<close> is returned because the second copy of the
  split case continues from it. The C code has no defined behaviour when an
  index leaves its array; that cannot happen for a well-formed pool and a
  destination of at least \<open>octets\<close> bytes (\<open>pool_ok\<close> below), and the theorems
  assume both.
\<close>

fun copy_octets :: "nat \<Rightarrow> nat \<Rightarrow> nat \<Rightarrow> u8_t list \<Rightarrow> u8_t list \<Rightarrow> nat \<times> u8_t list" where
  "copy_octets 0 d s src dst = (d, dst)"
| "copy_octets (Suc avail) d s src dst =
     copy_octets avail (d - 1) (s + 1) src (dst[d - 1 := src ! s])"

text \<open>The tail of \<open>rng_pool_get\<close>: store \<open>first\<close>, test the watermark, return.\<close>

definition rng_pool_get_finish ::
  "rng_pool \<Rightarrow> u8_t \<Rightarrow> u8_t \<Rightarrow> u8_t \<Rightarrow> u8_t list \<Rightarrow> nrf_rng \<Rightarrow> u8_t \<times> rng_pool \<times> u8_t list \<times> nrf_rng" where
  "rng_pool_get_finish rng first' remaining octets dst hw =
     (octets, rng\<lparr>first := first'\<rparr>, dst,
      if remaining < threshold rng then nrf_rng_task_trigger NRF_RNG_TASK_START hw else hw)"

text \<open>
  \<open>rng_pool_get rng octets dst hw\<close> returns the number of octets it could not
  supply, the pool, the destination buffer and the peripheral. The branches are
  those of the source: the contiguous case \<open>first \<le> last\<close>, and the split case
  with its second copy from the start of the array.
\<close>

definition rng_pool_get ::
  "rng_pool \<Rightarrow> u8_t \<Rightarrow> u8_t list \<Rightarrow> nrf_rng \<Rightarrow> u8_t \<times> rng_pool \<times> u8_t list \<times> nrf_rng" where
  "rng_pool_get rng octets dst hw =
     (let first' = first rng; last' = last_idx rng;
          d = unat octets; s = unat first'
      in if first' \<le> last' then
           (let avail = last' - first';
                remaining = (if octets < avail then avail - octets else 0);
                avail = (if octets < avail then octets else avail);
                first' = first' + avail;
                octets = octets - avail;
                (d, dst) = copy_octets (unat avail) d s (rand rng) dst
            in rng_pool_get_finish rng first' remaining octets dst hw)
         else
           (let avail = count rng - first';
                remaining = (if octets < avail then avail + last' - octets else last');
                first' = (if octets < avail then first' + octets else 0);
                avail = (if octets < avail then octets else avail);
                octets = octets - avail;
                (d, dst) = copy_octets (unat avail) d s (rand rng) dst
            in if octets \<noteq> 0 \<and> last' \<noteq> 0 then
                 (let remaining = (if octets < last' then last' - octets else 0);
                      last' = (if octets < last' then octets else last');
                      first' = last';
                      octets = octets - last';
                      (d, dst) = copy_octets (unat last') d 0 (rand rng) dst
                  in rng_pool_get_finish rng first' remaining octets dst hw)
               else rng_pool_get_finish rng first' remaining octets dst hw))"

text \<open>
  The index after \<open>last\<close>, wrapping at \<open>count\<close>; the source computes it twice in
  \<open>rng_pool_put\<close>, before and after the store. The addition is the 8-bit one.
\<close>

definition last_next :: "rng_pool \<Rightarrow> u8_t" where
  "last_next rng = (let last' = last_idx rng + 1 in if last' = count rng then 0 else last')"

text \<open>
  \<open>rng_pool_put\<close>. The pool argument is never a null pointer (both callers pass
  the address of an array of the device data), so the null guard has no branch
  here. The results are \<open>-ENOBUFS\<close> (full, nothing changed), \<open>-EBUSY\<close> (room
  left: after storing, or without storing when \<open>store\<close> is false) and \<open>0\<close>
  (stored, and the pool is full now).
\<close>

definition rng_pool_put :: "rng_pool \<Rightarrow> bool \<Rightarrow> u8_t \<Rightarrow> int \<times> rng_pool" where
  "rng_pool_put rng store byte =
     (if last_next rng = first rng then (- ENOBUFS, rng)
      else if \<not> store then (- EBUSY, rng)
      else
        (let rng = rng\<lparr>rand := (rand rng)[unat (last_idx rng) := byte],
                        last_idx := last_next rng\<rparr>
         in if last_next rng = first rng then (0, rng) else (- EBUSY, rng)))"

definition rng_pool_init :: "rng_pool \<Rightarrow> u8_t \<Rightarrow> u8_t \<Rightarrow> rng_pool" where
  "rng_pool_init rng len thr = rng\<lparr>count := len, threshold := thr, first := 0, last_idx := 0\<rparr>"

subsection \<open>Kernel semaphores\<close>

text \<open>
  Modelled from the spec: the kernel's semaphores (\<open>k_sem_init\<close>,
  \<open>k_sem_give\<close>, \<open>k_sem_take\<close>) are not among the sources. The specification
  has a mutual-exclusion gate and a wake signal on which an extractor blocks
  until the handler signals. Both are counting semaphores with a limit:
  \<open>k_sem_give\<close> adds one unless the count is at the limit, and \<open>k_sem_take\<close>
  with \<open>K_FOREVER\<close> takes one or blocks when the count is zero; blocking is the
  result \<open>None\<close>. \<open>sem_gives\<close> is a ghost counter of the calls of
  \<open>k_sem_give\<close>: a give at the limit leaves the count as it is, and the counter
  keeps the call observable.
\<close>

record k_sem =
  sem_count :: nat
  sem_limit :: nat
  sem_gives :: nat

definition k_sem_init :: "nat \<Rightarrow> nat \<Rightarrow> k_sem" where
  "k_sem_init initial limit = \<lparr>sem_count = initial, sem_limit = limit, sem_gives = 0\<rparr>"

definition k_sem_give :: "k_sem \<Rightarrow> k_sem" where
  "k_sem_give sem =
     sem\<lparr>sem_count := (if sem_count sem < sem_limit sem then sem_count sem + 1 else sem_count sem),
         sem_gives := sem_gives sem + 1\<rparr>"

definition k_sem_take :: "k_sem \<Rightarrow> k_sem option" where
  "k_sem_take sem =
     (if 0 < sem_count sem then Some (sem\<lparr>sem_count := sem_count sem - 1\<rparr>) else None)"

subsection \<open>The device data and the interrupt handler\<close>

text \<open>
  \<open>struct entropy_nrf5_dev_data\<close>; its two pools are the fields \<open>isr\<close> and
  \<open>thr\<close> of the source, named \<open>isr_pool\<close> and \<open>thr_pool\<close> here because
  \<open>isr\<close> is also the handler's name.
\<close>

record entropy_nrf5_dev_data =
  sem_lock :: k_sem
  sem_sync :: k_sem
  isr_pool :: rng_pool
  thr_pool :: rng_pool

text \<open>
  The handler. \<open>ret\<close> is assigned twice in the source; the second test of
  \<open>ret \<noteq> -EBUSY\<close> reads the thread pool's result when the first test passed
  and the ISR pool's result otherwise.
\<close>

definition isr :: "entropy_nrf5_dev_data \<Rightarrow> nrf_rng \<Rightarrow> entropy_nrf5_dev_data \<times> nrf_rng" where
  "isr dev hw =
     (case random_byte_get hw of (byte, hw) \<Rightarrow>
        if byte < 0 then (dev, hw)
        else
          (case rng_pool_put (isr_pool dev) True (word_of_int byte) of (ret, p) \<Rightarrow>
             (let dev = dev\<lparr>isr_pool := p\<rparr>;
                  (ret, dev) =
                    (if ret \<noteq> - EBUSY then
                       (case rng_pool_put (thr_pool dev) (ret = - ENOBUFS) (word_of_int byte) of
                          (ret, q) \<Rightarrow>
                            (ret, dev\<lparr>thr_pool := q, sem_sync := k_sem_give (sem_sync dev)\<rparr>))
                     else (ret, dev))
              in if ret \<noteq> - EBUSY then (dev, nrf_rng_task_trigger NRF_RNG_TASK_STOP hw)
                 else (dev, hw))))"

subsection \<open>Blocking extraction\<close>

text \<open>
  The model is sequential: the thread runs until it blocks on \<open>sem_sync\<close>, and
  while it is blocked the peripheral raises one interrupt for each value of
  \<open>samples\<close>, in order, until the handler has given the semaphore. A thread
  that is still blocked when the samples are used up never returns: the result
  is \<open>None\<close>.
\<close>

fun wait_sync ::
  "entropy_nrf5_dev_data \<Rightarrow> nrf_rng \<Rightarrow> u8_t list \<Rightarrow>
   (entropy_nrf5_dev_data \<times> nrf_rng \<times> u8_t list) option" where
  "wait_sync dev hw [] =
     (case k_sem_take (sem_sync dev) of
        Some sem \<Rightarrow> Some (dev\<lparr>sem_sync := sem\<rparr>, hw, [])
      | None \<Rightarrow> None)"
| "wait_sync dev hw (v # samples) =
     (case k_sem_take (sem_sync dev) of
        Some sem \<Rightarrow> Some (dev\<lparr>sem_sync := sem\<rparr>, hw, v # samples)
      | None \<Rightarrow>
          (case isr dev (hw\<lparr>event_valrdy := True, rng_value := v\<rparr>) of
             (dev', hw') \<Rightarrow> wait_sync dev' hw' samples))"

text \<open>
  The inner loop \<open>while (len8) { ... }\<close> of \<open>entropy_nrf5_get_entropy\<close>. The
  buffer pointer passed to \<open>rng_pool_get\<close> is \<open>buf\<close> in every round.
\<close>

function get_entropy_chunk ::
  "entropy_nrf5_dev_data \<Rightarrow> u8_t list \<Rightarrow> u8_t \<Rightarrow> nrf_rng \<Rightarrow> u8_t list \<Rightarrow>
   (entropy_nrf5_dev_data \<times> u8_t list \<times> nrf_rng \<times> u8_t list) option" where
  "get_entropy_chunk dev buf len8 hw samples =
     (if len8 = 0 then Some (dev, buf, hw, samples)
      else
        (case k_sem_take (sem_lock dev) of
           None \<Rightarrow> None
         | Some sem \<Rightarrow>
             (case rng_pool_get (thr_pool dev) len8 buf hw of
                (len8', thr', buf', hw') \<Rightarrow>
                  (let dev' = dev\<lparr>sem_lock := k_sem_give sem, thr_pool := thr'\<rparr>
                   in if len8' \<noteq> 0 then
                        (case wait_sync dev' hw' samples of
                           None \<Rightarrow> None
                         | Some (dev'', hw'', samples') \<Rightarrow>
                             get_entropy_chunk dev'' buf' len8' hw'' samples')
                      else get_entropy_chunk dev' buf' len8' hw' samples))))"
  by pat_completeness auto
termination
proof (relation "measures [\<lambda>(dev, buf, len8, hw, samples). unat len8,
                            \<lambda>(dev, buf, len8, hw, samples). length samples,
                            \<lambda>(dev, buf, len8, hw, samples). sem_count (sem_sync dev)]", goal_cases)
  case 1
  show ?case by simp
next
  case (2 dev buf len8 hw samples sem r y thr' ya buf' hw' dev' res dev'' yc hw'' samples')
  have sub2: "a - b - c \<le> a" if "b \<le> a" "c \<le> a - b" for a b c :: u8_t
    using that by (meson order_trans word_sub_le)
  have "fst (rng_pool_get (thr_pool dev) len8 buf hw) \<le> len8"
    unfolding rng_pool_get_def Let_def rng_pool_get_finish_def
    by (simp add: split_beta word_sub_le not_less sub2 less_imp_le)
  moreover have "fst (rng_pool_get (thr_pool dev) len8 buf hw) = r"
    using 2(3)[symmetric] by simp
  ultimately have le: "unat r \<le> unat len8"
    by (simp add: word_le_nat_alt)
  have progress: "length s' < length s \<or> (s' = s \<and> sem_count (sem_sync d') < sem_count (sem_sync d))"
    if "wait_sync d h s = Some (d', h', s')" for d h s d' h' s'
    using that
  proof (induction d h s rule: wait_sync.induct)
    case (1 dev hw)
    then show ?case by (auto simp: k_sem_take_def split: option.splits if_splits)
  next
    case (2 dev hw v samples)
    show ?case
    proof (cases "k_sem_take (sem_sync dev)")
      case None
      obtain d1 h1 where i: "isr dev (hw\<lparr>event_valrdy := True, rng_value := v\<rparr>) = (d1, h1)"
        by (cases "isr dev (hw\<lparr>event_valrdy := True, rng_value := v\<rparr>)")
      from 2 None i have "length s' < length samples \<or>
        (s' = samples \<and> sem_count (sem_sync d') < sem_count (sem_sync d1))"
        by simp
      then show ?thesis by auto
    next
      case (Some a)
      with 2 show ?thesis by (auto simp: k_sem_take_def split: if_splits)
    qed
  qed
  have "wait_sync dev' hw' samples = Some (dev'', hw'', samples')"
    using 2 by simp
  from progress[OF this]
  have "length samples' < length samples \<or>
        (samples' = samples \<and> sem_count (sem_sync dev'') < sem_count (sem_sync dev))"
    using 2(6) by simp
  then show ?case using le by auto
next
  case (3 dev buf len8 hw samples sem r y thr' ya buf' hw' dev')
  then show ?case by (simp add: unat_gt_0)
qed

text \<open>
  \<open>entropy_nrf5_get_entropy\<close>: the outer loop cuts the request into chunks of at
  most \<open>UINT8_MAX\<close> octets. It returns 0 when it returns.
\<close>

function entropy_nrf5_get_entropy ::
  "entropy_nrf5_dev_data \<Rightarrow> u8_t list \<Rightarrow> u16_t \<Rightarrow> nrf_rng \<Rightarrow> u8_t list \<Rightarrow>
   (int \<times> entropy_nrf5_dev_data \<times> u8_t list \<times> nrf_rng \<times> u8_t list) option" where
  "entropy_nrf5_get_entropy dev buf len hw samples =
     (if len = 0 then Some (0, dev, buf, hw, samples)
      else
        (let len8 = (if len > UINT8_MAX then ucast UINT8_MAX else ucast len) :: u8_t;
             len' = len - ucast len8
         in case get_entropy_chunk dev buf len8 hw samples of
              None \<Rightarrow> None
            | Some (dev', buf', hw', samples') \<Rightarrow>
                entropy_nrf5_get_entropy dev' buf' len' hw' samples'))"
  by pat_completeness auto
termination
proof (relation "measure (\<lambda>(dev, buf, len, hw, samples). unat len)", goal_cases)
  case 1
  show ?case by simp
next
  case (2 dev buf len hw samples len8 len' res dev' y buf' ya hw' samples')
  have "unat (len - ucast len8) < unat len"
  proof (cases "len > UINT8_MAX")
    case True
    then have "len8 = 255" using 2 by (simp add: UINT8_MAX_def)
    moreover have "255 < unat len" using True by (simp add: UINT8_MAX_def word_less_nat_alt)
    ultimately show ?thesis by (simp add: unat_sub word_le_nat_alt)
  next
    case False
    then have l: "unat len \<le> 255"
      by (simp add: UINT8_MAX_def word_less_nat_alt not_less word_le_nat_alt)
    have "len8 = ucast len" using False 2 by simp
    then have "(ucast len8 :: u16_t) = len"
      using l by (simp add: word_unat_eq_iff unsigned_ucast_eq take_bit_eq_mod)
    then show ?thesis using 2(1) by (simp add: unat_gt_0)
  qed
  then show ?case using 2 by simp
qed

subsection \<open>Extraction from interrupt context\<close>

text \<open>
  The busy-wait loop \<open>do { ... } while (len)\<close>: each round waits for the next
  value of the peripheral (the next element of \<open>samples\<close>; \<open>None\<close> when there is
  none), reads it and stores it at \<open>buf[--len]\<close>.
\<close>

fun busywait_loop ::
  "u8_t list \<Rightarrow> u16_t \<Rightarrow> u8_t list \<Rightarrow> nrf_rng \<Rightarrow> (u8_t list \<times> nrf_rng) option" where
  "busywait_loop [] len buf hw = None"
| "busywait_loop (v # samples) len buf hw =
     (case random_byte_get (hw\<lparr>event_valrdy := True, rng_value := v\<rparr>) of (byte, hw') \<Rightarrow>
        if byte < 0 then
          (if len \<noteq> 0 then busywait_loop samples len buf hw' else Some (buf, hw'))
        else
          (let len' = len - 1; buf' = buf[unat len' := word_of_int byte]
           in if len' \<noteq> 0 then busywait_loop samples len' buf' hw' else Some (buf', hw')))"

text \<open>
  \<open>entropy_nrf5_get_entropy_isr\<close>. Without \<open>ENTROPY_BUSYWAIT\<close> it returns what
  \<open>rng_pool_get\<close> returns, called with \<open>len\<close> converted to the \<open>u8_t\<close>
  parameter \<open>octets\<close>. With the flag it disables the RNG interrupt, starts the
  generator, busy-waits for \<open>len\<close> values and returns \<open>cnt\<close>, the requested
  length.
\<close>

definition entropy_nrf5_get_entropy_isr ::
  "entropy_nrf5_dev_data \<Rightarrow> u8_t list \<Rightarrow> u16_t \<Rightarrow> u32_t \<Rightarrow> nrf_rng \<Rightarrow> u8_t list \<Rightarrow>
   (int \<times> entropy_nrf5_dev_data \<times> u8_t list \<times> nrf_rng) option" where
  "entropy_nrf5_get_entropy_isr dev buf len flags hw samples =
     (let cnt = len in
      if flags AND ENTROPY_BUSYWAIT = 0 then
        (case rng_pool_get (isr_pool dev) (ucast len) buf hw of
           (r, p, buf', hw') \<Rightarrow> Some (uint r, dev\<lparr>isr_pool := p\<rparr>, buf', hw'))
      else if len \<noteq> 0 then
        (let irq = irq_enabled hw;
             hw1 = nrf_rng_task_trigger NRF_RNG_TASK_START
                     (nrf_rng_event_clear (hw\<lparr>irq_enabled := False\<rparr>))
         in case busywait_loop samples len buf hw1 of
              None \<Rightarrow> None
            | Some (buf', hw') \<Rightarrow>
                Some (uint cnt, dev, buf', if irq then hw'\<lparr>irq_enabled := True\<rparr> else hw'))
      else Some (uint cnt, dev, buf, hw))"

section \<open>Specification-level notions\<close>

text \<open>
  A pool is well formed when its array has \<open>count\<close> slots and both indices are
  below \<open>count\<close>. Every access of \<open>rng_pool_get\<close> and \<open>rng_pool_put\<close> is inside
  the array for a well-formed pool; outside it the C code has no defined
  behaviour and the lemmas below say nothing.
\<close>

definition pool_ok :: "rng_pool \<Rightarrow> bool" where
  "pool_ok rng \<longleftrightarrow>
     length (rand rng) = unat (count rng) \<and> first rng < count rng \<and> last_idx rng < count rng"

text \<open>
  The bytes a pool holds, oldest first: the slots from \<open>first\<close> up to \<open>last\<close>,
  around the end of the array when \<open>last\<close> is below \<open>first\<close>. Its length is the
  pool's occupancy.
\<close>

definition pending :: "rng_pool \<Rightarrow> u8_t list" where
  "pending rng =
     (if first rng \<le> last_idx rng
      then take (unat (last_idx rng) - unat (first rng)) (drop (unat (first rng)) (rand rng))
      else take (unat (count rng) - unat (first rng)) (drop (unat (first rng)) (rand rng))
           @ take (unat (last_idx rng)) (rand rng))"

text \<open>The test of \<open>rng_pool_put\<close> for a full pool: the index after \<open>last\<close> is \<open>first\<close>.\<close>

definition pool_full :: "rng_pool \<Rightarrow> bool" where
  "pool_full rng \<longleftrightarrow> last_next rng = first rng"

text \<open>
  What a call of \<open>rng_pool_get\<close> does to a well-formed pool holding the bytes
  \<open>pending rng\<close>: it takes the \<open>m\<close> oldest, \<open>m\<close> the smaller of the request and
  the occupancy, returns the shortfall, changes only \<open>first\<close>, writes the bytes
  taken to \<open>dst\<close> from index \<open>octets - 1\<close> downwards, and triggers the start task
  when fewer than \<open>threshold\<close> bytes are left.
\<close>

definition get_post ::
  "rng_pool \<Rightarrow> u8_t \<Rightarrow> u8_t list \<Rightarrow> nrf_rng \<Rightarrow> u8_t \<times> rng_pool \<times> u8_t list \<times> nrf_rng \<Rightarrow> bool" where
  "get_post rng octets dst hw res =
     (let m = min (unat octets) (length (pending rng)) in
      case res of (r, rng', dst', hw') \<Rightarrow>
        unat r = unat octets - m \<and>
        rng' = rng\<lparr>first := first rng'\<rparr> \<and>
        pool_ok rng' \<and>
        pending rng' = drop m (pending rng) \<and>
        dst' = take (unat octets - m) dst @ rev (take m (pending rng)) @ drop (unat octets) dst \<and>
        hw' = (if length (pending rng) - m < unat (threshold rng)
               then nrf_rng_task_trigger NRF_RNG_TASK_START hw else hw))"

text \<open>Storing a list of bytes one by one, and a sequence of puts with their results.\<close>

fun put_bytes :: "rng_pool \<Rightarrow> u8_t list \<Rightarrow> rng_pool" where
  "put_bytes rng [] = rng"
| "put_bytes rng (b # bs) = put_bytes (snd (rng_pool_put rng True b)) bs"

fun put_seq :: "rng_pool \<Rightarrow> (bool \<times> u8_t) list \<Rightarrow> int list \<times> rng_pool" where
  "put_seq rng [] = ([], rng)"
| "put_seq rng ((store, b) # ps) =
     (case rng_pool_put rng store b of (ret, rng') \<Rightarrow>
        (case put_seq rng' ps of (rets, rng'') \<Rightarrow> (ret # rets, rng'')))"

subsection \<open>States of the running example\<close>

text \<open>
  A pool of capacity 8 (seven usable slots) and threshold 2, freshly initialised
  over the zeroed memory \<open>mem8\<close>, the same pool after the bytes \<open>0x11\<close> to
  \<open>0x17\<close> were stored one at a time, and an idle peripheral.
\<close>

definition mem8 :: rng_pool where
  "mem8 = \<lparr>count = 0, threshold = 0, first = 0, last_idx = 0, rand = [0, 0, 0, 0, 0, 0, 0, 0]\<rparr>"

definition pool8 :: rng_pool where
  "pool8 = rng_pool_init mem8 8 2"

definition hw0 :: nrf_rng where
  "hw0 = \<lparr>event_valrdy = False, rng_value = 0, irq_enabled = True, tasks = []\<rparr>"

definition scenario_bytes :: "u8_t list" where
  "scenario_bytes = [0x11, 0x12, 0x13, 0x14, 0x15, 0x16, 0x17]"

definition scenario_pool :: rng_pool where
  "scenario_pool = put_bytes pool8 scenario_bytes"

subsection \<open>Sequences of pool operations\<close>

text \<open>
  A put with its store flag and byte, or a get with its request and destination
  buffer. \<open>run_op\<close> applies one operation to a pool and keeps a count beside
  it: the bytes stored so far minus the bytes delivered so far, as the results
  of the calls report them (a put stores unless it returns \<open>-ENOBUFS\<close> or is
  called without the store flag; a get delivers its request minus the returned
  shortfall). A get is well formed when its destination has room for the
  request.
\<close>

datatype pool_op = Put bool u8_t | Get u8_t "u8_t list"

fun op_ok :: "pool_op \<Rightarrow> bool" where
  "op_ok (Put store b) = True"
| "op_ok (Get octets dst) = (unat octets \<le> length dst)"

fun run_op :: "pool_op \<Rightarrow> rng_pool \<times> nat \<times> nrf_rng \<Rightarrow> rng_pool \<times> nat \<times> nrf_rng" where
  "run_op (Put store b) (rng, k, hw) =
     (case rng_pool_put rng store b of
        (ret, rng') \<Rightarrow> (rng', if store \<and> ret \<noteq> - ENOBUFS then Suc k else k, hw))"
| "run_op (Get octets dst) (rng, k, hw) =
     (case rng_pool_get rng octets dst hw of
        (r, rng', dst', hw') \<Rightarrow> (rng', k - (unat octets - unat r), hw'))"

definition run_ops :: "pool_op list \<Rightarrow> rng_pool \<times> nat \<times> nrf_rng \<Rightarrow> rng_pool \<times> nat \<times> nrf_rng" where
  "run_ops ops s = fold run_op ops s"

definition ex_ops :: "pool_op list" where
  "ex_ops = [Put True 0x11, Put True 0x12, Get 1 [0], Put False 0x13, Get 5 [0, 0, 0, 0, 0],
             Put True 0x14]"

subsection \<open>Device states of the examples\<close>

text \<open>
  The peripheral with a value ready, a device whose ISR pool is full and whose
  thread pool is empty, and a device with both pools full. The lock semaphore
  starts at 1 and the wake semaphore at 0, as \<open>entropy_nrf5_init\<close> sets them.
\<close>

definition hw_ready :: "u8_t \<Rightarrow> nrf_rng" where
  "hw_ready v = hw0\<lparr>event_valrdy := True, rng_value := v\<rparr>"

definition dev_isr_full :: entropy_nrf5_dev_data where
  "dev_isr_full = \<lparr>sem_lock = k_sem_init 1 1, sem_sync = k_sem_init 0 1,
                    isr_pool = scenario_pool, thr_pool = pool8\<rparr>"

definition dev_both_full :: entropy_nrf5_dev_data where
  "dev_both_full = \<lparr>sem_lock = k_sem_init 1 1, sem_sync = k_sem_init 0 1,
                     isr_pool = scenario_pool, thr_pool = scenario_pool\<rparr>"

subsection \<open>Starts and threshold crossings\<close>

text \<open>
  A sequence of gets on one pool, the number of its gets that cross the
  threshold downwards (the occupancy is at least \<open>threshold\<close> before the get and
  below it after), and the number of start tasks the peripheral has seen.
\<close>

fun get_seq :: "rng_pool \<Rightarrow> (u8_t \<times> u8_t list) list \<Rightarrow> nrf_rng \<Rightarrow> rng_pool \<times> nrf_rng" where
  "get_seq rng [] hw = (rng, hw)"
| "get_seq rng ((octets, dst) # gets) hw =
     (case rng_pool_get rng octets dst hw of (r, rng', dst', hw') \<Rightarrow> get_seq rng' gets hw')"

fun crossings :: "rng_pool \<Rightarrow> (u8_t \<times> u8_t list) list \<Rightarrow> nrf_rng \<Rightarrow> nat" where
  "crossings rng [] hw = 0"
| "crossings rng ((octets, dst) # gets) hw =
     (case rng_pool_get rng octets dst hw of
        (r, rng', dst', hw') \<Rightarrow>
          (if unat (threshold rng) \<le> length (pending rng) \<and>
              length (pending rng') < unat (threshold rng)
           then 1 else 0) + crossings rng' gets hw')"

definition starts :: "nrf_rng \<Rightarrow> nat" where
  "starts hw = length (filter (\<lambda>t. t = NRF_RNG_TASK_START) (tasks hw))"

subsection \<open>States of the extraction examples\<close>

text \<open>
  The pool of capacity 8 holding the three bytes \<open>0x11, 0x12, 0x13\<close>, a device
  with that pool as its ISR pool, and a caller's buffer of 256 zero bytes.
\<close>

definition pool3 :: rng_pool where
  "pool3 = put_bytes pool8 [0x11, 0x12, 0x13]"

definition dev_isr3 :: entropy_nrf5_dev_data where
  "dev_isr3 = \<lparr>sem_lock = k_sem_init 1 1, sem_sync = k_sem_init 0 1,
                isr_pool = pool3, thr_pool = pool8\<rparr>"

definition buf256 :: "u8_t list" where
  "buf256 = replicate 256 0"

text \<open>
  The values the peripheral produces in the example of the blocking call: the
  bytes 1 to 255 and then \<open>0xEE\<close>.
\<close>

definition samples256 :: "u8_t list" where
  "samples256 = map word_of_nat [1 ..< 256] @ [0xEE]"

section \<open>The copy loop and \<open>rng_pool_get\<close>\<close>

lemma copy_octets_eq:
  "n \<le> d \<Longrightarrow> d \<le> length dst \<Longrightarrow> s + n \<le> length src \<Longrightarrow>
   copy_octets n d s src dst = (d - n, take (d - n) dst @ rev (take n (drop s src)) @ drop d dst)"
proof (induction n arbitrary: d s dst)
  case 0
  then show ?case by simp
next
  case (Suc n)
  have s: "s < length src" using Suc.prems by simp
  have d: "d - 1 < length dst" "0 < d" using Suc.prems by simp_all
  have "copy_octets (Suc n) d s src dst = copy_octets n (d - 1) (s + 1) src (dst[d - 1 := src ! s])"
    by simp
  also have "\<dots> = (d - 1 - n, take (d - 1 - n) (dst[d - 1 := src ! s]) @ rev (take n (drop (s + 1) src)) @ drop (d - 1) (dst[d - 1 := src ! s]))"
    using Suc.prems by (intro Suc.IH) simp_all
  also have "take (d - 1 - n) (dst[d - 1 := src ! s]) = take (d - Suc n) dst"
    by simp
  also have "drop (d - 1) (dst[d - 1 := src ! s]) = src ! s # drop d dst"
    using d by (simp add: drop_update_cancel Cons_nth_drop_Suc[symmetric] upd_conv_take_nth_drop)
  also have "rev (take n (drop (s + 1) src)) @ src ! s # drop d dst = rev (take (Suc n) (drop s src)) @ drop d dst"
    using s by (simp add: take_Suc_conv_app_nth Cons_nth_drop_Suc[symmetric] take_Suc_Cons)
  finally show ?case by simp
qed

lemma unat_u8_bound: "unat (w :: u8_t) < 256"
  using unsigned_less[of w, where 'a = nat] by simp

lemma unat_u8_add: "unat a + unat b < 256 \<Longrightarrow> unat (a + b :: u8_t) = unat a + unat b"
  using unat_add_lem[of a b] by simp

lemma get_contig_short:
  assumes ok: "pool_ok rng" and fl: "first rng \<le> last_idx rng"
    and sh: "octets < last_idx rng - first rng" and len: "unat octets \<le> length dst"
  shows "rng_pool_get rng octets dst hw =
     rng_pool_get_finish rng (first rng + octets) (last_idx rng - first rng - octets) 0
       (rev (take (unat octets) (drop (unat (first rng)) (rand rng))) @ drop (unat octets) dst) hw"
proof -
  have a: "unat (last_idx rng - first rng) = unat (last_idx rng) - unat (first rng)"
    using fl by (simp add: unat_sub)
  have b: "unat (first rng) + unat octets \<le> length (rand rng)"
    using ok sh a fl unfolding pool_ok_def by (auto simp add: word_less_nat_alt word_le_nat_alt)
  show ?thesis
    unfolding rng_pool_get_def Let_def using fl sh len b
    by (simp add: copy_octets_eq)
qed

lemma get_contig_all:
  assumes ok: "pool_ok rng" and fl: "first rng \<le> last_idx rng"
    and sh: "\<not> octets < last_idx rng - first rng" and len: "unat octets \<le> length dst"
  shows "rng_pool_get rng octets dst hw =
     rng_pool_get_finish rng (last_idx rng) 0 (octets - (last_idx rng - first rng))
       (take (unat octets - (unat (last_idx rng) - unat (first rng))) dst
        @ rev (take (unat (last_idx rng) - unat (first rng)) (drop (unat (first rng)) (rand rng)))
        @ drop (unat octets) dst) hw"
proof -
  have a: "unat (last_idx rng - first rng) = unat (last_idx rng) - unat (first rng)"
    using fl by (simp add: unat_sub)
  have b: "unat (first rng) + (unat (last_idx rng) - unat (first rng)) \<le> length (rand rng)"
    using ok fl unfolding pool_ok_def by (simp add: word_less_nat_alt word_le_nat_alt)
  have c: "unat (last_idx rng) - unat (first rng) \<le> unat octets"
    using sh a by (simp add: word_less_nat_alt)
  show ?thesis
    unfolding rng_pool_get_def Let_def using fl sh len b c a
    by (simp add: copy_octets_eq)
qed

lemma get_split_short:
  assumes ok: "pool_ok rng" and fl: "\<not> first rng \<le> last_idx rng"
    and sh: "octets < count rng - first rng" and len: "unat octets \<le> length dst"
  shows "rng_pool_get rng octets dst hw =
     rng_pool_get_finish rng (first rng + octets) (count rng - first rng + last_idx rng - octets) 0
       (rev (take (unat octets) (drop (unat (first rng)) (rand rng))) @ drop (unat octets) dst) hw"
proof -
  have a: "unat (count rng - first rng) = unat (count rng) - unat (first rng)"
    using ok unfolding pool_ok_def by (simp add: unat_sub word_less_nat_alt word_le_nat_alt)
  have b: "unat (first rng) + unat octets \<le> length (rand rng)"
    using ok sh a unfolding pool_ok_def by (auto simp add: word_less_nat_alt word_le_nat_alt)
  show ?thesis
    unfolding rng_pool_get_def Let_def using fl sh len b
    by (simp add: copy_octets_eq)
qed

lemma get_split_end:
  assumes ok: "pool_ok rng" and fl: "\<not> first rng \<le> last_idx rng"
    and sh: "\<not> octets < count rng - first rng" and len: "unat octets \<le> length dst"
    and stop: "octets - (count rng - first rng) = 0 \<or> last_idx rng = 0"
  shows "rng_pool_get rng octets dst hw =
     rng_pool_get_finish rng 0 (last_idx rng) (octets - (count rng - first rng))
       (take (unat octets - (unat (count rng) - unat (first rng))) dst
        @ rev (drop (unat (first rng)) (rand rng)) @ drop (unat octets) dst) hw"
proof -
  have a: "unat (count rng - first rng) = unat (count rng) - unat (first rng)"
    using ok unfolding pool_ok_def by (simp add: unat_sub word_less_nat_alt word_le_nat_alt)
  have b: "unat (first rng) + (unat (count rng) - unat (first rng)) \<le> length (rand rng)"
    using ok unfolding pool_ok_def by (auto simp add: word_less_nat_alt word_le_nat_alt)
  have c: "unat (count rng) - unat (first rng) \<le> unat octets"
    using sh a by (simp add: word_less_nat_alt)
  have d: "take (unat (count rng) - unat (first rng)) (drop (unat (first rng)) (rand rng))
           = drop (unat (first rng)) (rand rng)"
    using ok unfolding pool_ok_def by simp
  show ?thesis
    unfolding rng_pool_get_def Let_def using fl sh len b c a d stop
    by (auto simp add: copy_octets_eq)
qed

lemma get_split_facts:
  assumes ok: "pool_ok rng" and fl: "\<not> first rng \<le> last_idx rng"
    and sh: "\<not> octets < count rng - first rng"
  shows "unat (count rng - first rng) = unat (count rng) - unat (first rng)"
    and "unat (count rng) - unat (first rng) \<le> unat octets"
    and "unat (octets - (count rng - first rng)) = unat octets - (unat (count rng) - unat (first rng))"
    and "length (rand rng) = unat (count rng)"
    and "unat (first rng) < unat (count rng)"
    and "unat (last_idx rng) < unat (first rng)"
proof -
  show a: "unat (count rng - first rng) = unat (count rng) - unat (first rng)"
    using ok unfolding pool_ok_def by (simp add: unat_sub word_less_nat_alt word_le_nat_alt)
  show c: "unat (count rng) - unat (first rng) \<le> unat octets"
    using sh a by (simp add: word_less_nat_alt)
  show "unat (octets - (count rng - first rng)) = unat octets - (unat (count rng) - unat (first rng))"
    using c a by (simp add: unat_sub word_le_nat_alt)
  show "length (rand rng) = unat (count rng)" "unat (first rng) < unat (count rng)"
    using ok unfolding pool_ok_def by (simp_all add: word_less_nat_alt)
  show "unat (last_idx rng) < unat (first rng)"
    using fl by (simp add: word_le_nat_alt)
qed

lemma get_split_wrap_short:
  assumes ok: "pool_ok rng" and fl: "\<not> first rng \<le> last_idx rng"
    and sh: "\<not> octets < count rng - first rng" and len: "unat octets \<le> length dst"
    and go: "octets - (count rng - first rng) \<noteq> 0" "last_idx rng \<noteq> 0"
    and lt: "octets - (count rng - first rng) < last_idx rng"
  shows "rng_pool_get rng octets dst hw =
     rng_pool_get_finish rng (octets - (count rng - first rng))
       (last_idx rng - (octets - (count rng - first rng))) 0
       (rev (take (unat octets - (unat (count rng) - unat (first rng))) (rand rng))
        @ rev (drop (unat (first rng)) (rand rng)) @ drop (unat octets) dst) hw"
proof -
  note f = get_split_facts[OF ok fl sh]
  let ?a = "unat (count rng) - unat (first rng)"
  let ?dst1 = "take (unat octets - ?a) dst @ rev (drop (unat (first rng)) (rand rng)) @ drop (unat octets) dst"
  have c1: "copy_octets (unat (count rng - first rng)) (unat octets) (unat (first rng)) (rand rng) dst
            = (unat octets - ?a, ?dst1)"
    using f len by (simp add: copy_octets_eq)
  have k: "unat octets - ?a < unat (last_idx rng)"
    using lt f(3) by (simp add: word_less_nat_alt)
  have c2: "copy_octets (unat (octets - (count rng - first rng))) (unat octets - ?a) 0 (rand rng) ?dst1
            = (0, rev (take (unat octets - ?a) (rand rng))
                  @ rev (drop (unat (first rng)) (rand rng)) @ drop (unat octets) dst)"
    using f len k by (simp add: copy_octets_eq)
  show ?thesis
    unfolding rng_pool_get_def Let_def
    by (simp only: fl sh go lt c1 c2 if_True if_False split conj_commute simp_thms diff_self)
qed

lemma get_split_wrap_all:
  assumes ok: "pool_ok rng" and fl: "\<not> first rng \<le> last_idx rng"
    and sh: "\<not> octets < count rng - first rng" and len: "unat octets \<le> length dst"
    and go: "octets - (count rng - first rng) \<noteq> 0" "last_idx rng \<noteq> 0"
    and lt: "\<not> octets - (count rng - first rng) < last_idx rng"
  shows "rng_pool_get rng octets dst hw =
     rng_pool_get_finish rng (last_idx rng) 0
       (octets - (count rng - first rng) - last_idx rng)
       (take (unat octets - (unat (count rng) - unat (first rng)) - unat (last_idx rng)) dst
        @ rev (take (unat (last_idx rng)) (rand rng))
        @ rev (drop (unat (first rng)) (rand rng)) @ drop (unat octets) dst) hw"
proof -
  note f = get_split_facts[OF ok fl sh]
  let ?a = "unat (count rng) - unat (first rng)"
  let ?dst1 = "take (unat octets - ?a) dst @ rev (drop (unat (first rng)) (rand rng)) @ drop (unat octets) dst"
  have c1: "copy_octets (unat (count rng - first rng)) (unat octets) (unat (first rng)) (rand rng) dst
            = (unat octets - ?a, ?dst1)"
    using f len by (simp add: copy_octets_eq)
  have k: "unat (last_idx rng) \<le> unat octets - ?a"
    using lt f(3) by (simp add: word_less_nat_alt)
  have c2: "copy_octets (unat (last_idx rng)) (unat octets - ?a) 0 (rand rng) ?dst1
            = (unat octets - ?a - unat (last_idx rng),
               take (unat octets - ?a - unat (last_idx rng)) dst
               @ rev (take (unat (last_idx rng)) (rand rng))
               @ rev (drop (unat (first rng)) (rand rng)) @ drop (unat octets) dst)"
    using f len k by (simp add: copy_octets_eq)
  show ?thesis
    unfolding rng_pool_get_def Let_def
    by (simp only: fl sh go lt c1 c2 if_True if_False split conj_commute simp_thms diff_self)
qed

lemma finish_post:
  assumes ok: "pool_ok rng" and f: "f < count rng"
    and m: "m = min (unat octets) (length (pending rng))"
    and p: "pending (rng\<lparr>first := f\<rparr>) = drop m (pending rng)"
    and rem: "unat remaining = length (pending rng) - m"
    and r: "unat r = unat octets - m"
    and d: "DST = take (unat octets - m) dst @ rev (take m (pending rng)) @ drop (unat octets) dst"
  shows "get_post rng octets dst hw (rng_pool_get_finish rng f remaining r DST hw)"
proof -
  have "pool_ok (rng\<lparr>first := f\<rparr>)" using ok f unfolding pool_ok_def by simp
  then show ?thesis
    unfolding get_post_def rng_pool_get_finish_def Let_def m[symmetric]
    using p rem r d by (simp add: word_less_nat_alt)
qed

lemma pending_contig:
  assumes "pool_ok rng" "first rng \<le> last_idx rng"
  shows "length (pending rng) = unat (last_idx rng) - unat (first rng)"
  using assms unfolding pool_ok_def pending_def by (auto simp add: word_less_nat_alt word_le_nat_alt)

lemma pending_split:
  assumes "pool_ok rng" "\<not> first rng \<le> last_idx rng"
  shows "pending rng = drop (unat (first rng)) (rand rng) @ take (unat (last_idx rng)) (rand rng)"
    and "length (pending rng) = unat (count rng) - unat (first rng) + unat (last_idx rng)"
  using assms unfolding pool_ok_def pending_def by (auto simp add: word_less_nat_alt word_le_nat_alt)

lemma get_post_contig:
  assumes ok: "pool_ok rng" and fl: "first rng \<le> last_idx rng" and len: "unat octets \<le> length dst"
  shows "get_post rng octets dst hw (rng_pool_get rng octets dst hw)"
proof -
  let ?F = "unat (first rng)" and ?L = "unat (last_idx rng)" and ?N = "unat octets"
  have FL: "?F \<le> ?L" using fl by (simp add: word_le_nat_alt)
  have LC: "?L < unat (count rng)" "length (rand rng) = unat (count rng)"
    using ok unfolding pool_ok_def by (simp_all add: word_less_nat_alt)
  have a: "unat (last_idx rng - first rng) = ?L - ?F" using fl by (simp add: unat_sub)
  have pl: "length (pending rng) = ?L - ?F" by (rule pending_contig[OF ok fl])
  have pd: "pending rng = take (?L - ?F) (drop ?F (rand rng))" using fl unfolding pending_def by simp
  show ?thesis
  proof (cases "octets < last_idx rng - first rng")
    case True
    then have N: "?N < ?L - ?F" using a by (simp add: word_less_nat_alt)
    have uf: "unat (first rng + octets) = ?F + ?N"
      using N LC unat_u8_bound[of "count rng"] by (intro unat_u8_add) simp
    have m: "?N = min ?N (length (pending rng))" using N pl by simp
    show ?thesis
      unfolding get_contig_short[OF ok fl True len]
    proof (rule finish_post[OF ok _ m])
      show "first rng + octets < count rng" using uf N LC by (simp add: word_less_nat_alt)
      have le: "first rng + octets \<le> last_idx rng" using uf N by (simp add: word_le_nat_alt)
      show "pending (rng\<lparr>first := first rng + octets\<rparr>) = drop ?N (pending rng)"
        unfolding pending_def using le fl uf N by (simp add: drop_take add.commute)
      show "unat (last_idx rng - first rng - octets) = length (pending rng) - ?N"
        using True a pl by (simp add: unat_sub word_less_nat_alt word_le_nat_alt)
      show "unat (0::u8_t) = ?N - ?N" by simp
      show "rev (take ?N (drop ?F (rand rng))) @ drop ?N dst =
            take (?N - ?N) dst @ rev (take ?N (pending rng)) @ drop ?N dst"
        using N pd by (simp add: min_def)
    qed
  next
    case False
    then have N: "?L - ?F \<le> ?N" using a by (simp add: word_less_nat_alt)
    have m: "?L - ?F = min ?N (length (pending rng))" using N pl by simp
    show ?thesis
      unfolding get_contig_all[OF ok fl False len]
    proof (rule finish_post[OF ok _ m])
      show "last_idx rng < count rng" using ok unfolding pool_ok_def by simp
      show "pending (rng\<lparr>first := last_idx rng\<rparr>) = drop (?L - ?F) (pending rng)"
        unfolding pending_def using fl by simp
      show "unat (0::u8_t) = length (pending rng) - (?L - ?F)" using pl by simp
      show "unat (octets - (last_idx rng - first rng)) = ?N - (?L - ?F)"
        using N a by (simp add: unat_sub word_le_nat_alt)
      show "take (?N - (?L - ?F)) dst @ rev (take (?L - ?F) (drop ?F (rand rng))) @ drop ?N dst =
            take (?N - (?L - ?F)) dst @ rev (take (?L - ?F) (pending rng)) @ drop ?N dst"
        using pd by simp
    qed
  qed
qed

lemma get_post_split:
  assumes ok: "pool_ok rng" and fl: "\<not> first rng \<le> last_idx rng" and len: "unat octets \<le> length dst"
  shows "get_post rng octets dst hw (rng_pool_get rng octets dst hw)"
proof -
  let ?F = "unat (first rng)" and ?L = "unat (last_idx rng)" and ?N = "unat octets"
  let ?C = "unat (count rng)"
  let ?R = "rand rng"
  have LF: "?L < ?F" using fl by (simp add: word_le_nat_alt)
  have FC: "?F < ?C" "length ?R = ?C"
    using ok unfolding pool_ok_def by (simp_all add: word_less_nat_alt)
  have C: "?C < 256" by (rule unat_u8_bound)
  have a: "unat (count rng - first rng) = ?C - ?F"
    using FC by (simp add: unat_sub word_le_nat_alt)
  have pd: "pending rng = drop ?F ?R @ take ?L ?R" by (rule pending_split(1)[OF ok fl])
  have pl: "length (pending rng) = ?C - ?F + ?L" by (rule pending_split(2)[OF ok fl])
  show ?thesis
  proof (cases "octets < count rng - first rng")
    case True
    then have N: "?N < ?C - ?F" using a by (simp add: word_less_nat_alt)
    have uf: "unat (first rng + octets) = ?F + ?N"
      using N C by (intro unat_u8_add) simp
    have m: "?N = min ?N (length (pending rng))" using N pl by simp
    show ?thesis
      unfolding get_split_short[OF ok fl True len]
    proof (rule finish_post[OF ok _ m])
      show "first rng + octets < count rng" using uf N by (simp add: word_less_nat_alt)
      have nle: "\<not> first rng + octets \<le> last_idx rng" using uf LF by (simp add: word_le_nat_alt)
      show "pending (rng\<lparr>first := first rng + octets\<rparr>) = drop ?N (pending rng)"
        unfolding pending_def using nle fl uf N FC by (simp add: add.commute)
      have "unat (count rng - first rng + last_idx rng) = unat (count rng - first rng) + ?L"
        using a LF C FC by (intro unat_u8_add) simp
      then have "unat (count rng - first rng + last_idx rng) = ?C - ?F + ?L"
        using a by simp
      then show "unat (count rng - first rng + last_idx rng - octets) = length (pending rng) - ?N"
        using N pl by (simp add: unat_sub word_le_nat_alt)
      show "unat (0::u8_t) = ?N - ?N" by simp
      show "rev (take ?N (drop ?F ?R)) @ drop ?N dst =
            take (?N - ?N) dst @ rev (take ?N (pending rng)) @ drop ?N dst"
        using N pd FC by simp
    qed
  next
    case False
    note f = get_split_facts[OF ok fl False]
    show ?thesis
    proof (cases "octets - (count rng - first rng) = 0 \<or> last_idx rng = 0")
      case True
      have "?N - (?C - ?F) = 0 \<or> ?L = 0"
        using True f(3) by (auto simp: unat_eq_zero[symmetric] simp del: unat_eq_zero)
      then have m: "?C - ?F = min ?N (length (pending rng))" using f(2) pl by auto
      show ?thesis
        unfolding get_split_end[OF ok fl False len True]
      proof (rule finish_post[OF ok _ m])
        show "0 < count rng" using FC by (simp add: word_less_nat_alt)
        show "pending (rng\<lparr>first := 0\<rparr>) = drop (?C - ?F) (pending rng)"
          unfolding pd using FC by (simp add: pending_def)
        show "unat (last_idx rng) = length (pending rng) - (?C - ?F)" using pl by simp
        show "unat (octets - (count rng - first rng)) = ?N - (?C - ?F)" by (rule f(3))
        show "take (?N - (?C - ?F)) dst @ rev (drop ?F ?R) @ drop ?N dst =
              take (?N - (?C - ?F)) dst @ rev (take (?C - ?F) (pending rng)) @ drop ?N dst"
          unfolding pd using FC by simp
      qed
    next
      case go: False
      then have go1: "octets - (count rng - first rng) \<noteq> 0" and go2: "last_idx rng \<noteq> 0" by simp_all
      show ?thesis
      proof (cases "octets - (count rng - first rng) < last_idx rng")
        case True
        then have k: "?N - (?C - ?F) < ?L" using f(3) by (simp add: word_less_nat_alt)
        have m: "?N = min ?N (length (pending rng))" using k pl by simp
        show ?thesis
          unfolding get_split_wrap_short[OF ok fl False len go1 go2 True]
        proof (rule finish_post[OF ok _ m])
          show "octets - (count rng - first rng) < count rng"
            using f(3) k LF FC by (simp add: word_less_nat_alt)
          have le: "octets - (count rng - first rng) \<le> last_idx rng"
            using True by simp
          show "pending (rng\<lparr>first := octets - (count rng - first rng)\<rparr>) = drop ?N (pending rng)"
            unfolding pd using le f(2,3) FC by (simp add: pending_def drop_take)
          show "unat (last_idx rng - (octets - (count rng - first rng))) = length (pending rng) - ?N"
            using le f(2,3) pl by (simp add: unat_sub)
          show "unat (0::u8_t) = ?N - ?N" by simp
          show "rev (take (?N - (?C - ?F)) ?R) @ rev (drop ?F ?R) @ drop ?N dst =
                take (?N - ?N) dst @ rev (take ?N (pending rng)) @ drop ?N dst"
            unfolding pd using FC k f(2) by (simp add: min_def)
        qed
      next
        case nlt: False
        then have k: "?L \<le> ?N - (?C - ?F)" using f(3) by (simp add: word_less_nat_alt)
        have m: "?C - ?F + ?L = min ?N (length (pending rng))" using k pl f(2) by simp
        show ?thesis
          unfolding get_split_wrap_all[OF ok fl False len go1 go2 nlt]
        proof (rule finish_post[OF ok _ m])
          show "last_idx rng < count rng" using ok unfolding pool_ok_def by simp
          show "pending (rng\<lparr>first := last_idx rng\<rparr>) = drop (?C - ?F + ?L) (pending rng)"
            unfolding pd using FC LF by (simp add: pending_def)
          show "unat (0::u8_t) = length (pending rng) - (?C - ?F + ?L)" using pl by simp
          have "last_idx rng \<le> octets - (count rng - first rng)" using nlt by simp
          then show "unat (octets - (count rng - first rng) - last_idx rng) = ?N - (?C - ?F + ?L)"
            using f(3) by (simp add: unat_sub)
          show "take (?N - (?C - ?F) - ?L) dst @ rev (take ?L ?R) @ rev (drop ?F ?R) @ drop ?N dst =
                take (?N - (?C - ?F + ?L)) dst @ rev (take (?C - ?F + ?L) (pending rng)) @ drop ?N dst"
            unfolding pd using FC LF by simp
        qed
      qed
    qed
  qed
qed

lemma rng_pool_get_post:
  assumes "pool_ok rng" "unat octets \<le> length dst"
  shows "get_post rng octets dst hw (rng_pool_get rng octets dst hw)"
  using assms get_post_contig get_post_split by (cases "first rng \<le> last_idx rng") blast+

lemma pending_length:
  assumes ok: "pool_ok rng"
  shows "length (pending rng) =
     (if unat (first rng) \<le> unat (last_idx rng) then unat (last_idx rng) - unat (first rng)
      else unat (count rng) - unat (first rng) + unat (last_idx rng))"
  using pending_contig[OF ok] pending_split(2)[OF ok] by (auto simp: word_le_nat_alt)

lemma get_zero_unchanged:
  assumes ok: "pool_ok rng"
  shows "rng_pool_get rng 0 dst hw =
     (0, rng, dst, if length (pending rng) < unat (threshold rng)
                   then nrf_rng_task_trigger NRF_RNG_TASK_START hw else hw)"
proof -
  obtain r rng' dst' hw' where g: "rng_pool_get rng 0 dst hw = (r, rng', dst', hw')"
    by (cases "rng_pool_get rng 0 dst hw")
  have post: "get_post rng 0 dst hw (r, rng', dst', hw')"
    using rng_pool_get_post[OF ok, of 0 dst hw] g by simp
  then have a: "unat r = 0" "rng' = rng\<lparr>first := first rng'\<rparr>" "pool_ok rng'"
    "pending rng' = pending rng" "dst' = dst"
    "hw' = (if length (pending rng) < unat (threshold rng)
            then nrf_rng_task_trigger NRF_RNG_TASK_START hw else hw)"
    unfolding get_post_def Let_def by simp_all
  have l: "last_idx rng' = last_idx rng" "count rng' = count rng"
    by (subst a(2), simp)+
  have b: "unat (first rng) < unat (count rng)" "unat (last_idx rng) < unat (count rng)"
    "unat (first rng') < unat (count rng)"
    using ok a(3) l unfolding pool_ok_def by (simp_all add: word_less_nat_alt)
  have "length (pending rng') = length (pending rng)" using a(4) by simp
  then have "unat (first rng') = unat (first rng)"
    unfolding pending_length[OF ok] pending_length[OF a(3)] l using b
    by (auto split: if_splits)
  then have "first rng' = first rng" by (simp add: word_unat_eq_iff)
  then have "rng' = rng" using a(2) by simp
  then show ?thesis using g a by (simp add: unat_eq_zero)
qed

section \<open>\<open>rng_pool_put\<close> and \<open>rng_pool_init\<close>\<close>

lemma unat_last_next:
  assumes ok: "pool_ok rng"
  shows "unat (last_next rng) =
         (if Suc (unat (last_idx rng)) = unat (count rng) then 0 else Suc (unat (last_idx rng)))"
proof -
  have L: "unat (last_idx rng) < unat (count rng)"
    using ok unfolding pool_ok_def by (simp add: word_less_nat_alt)
  have "unat (last_idx rng) + unat (1::u8_t) < 256"
    using L unat_u8_bound[of "count rng"] by simp
  then have s: "unat (last_idx rng + 1) = Suc (unat (last_idx rng))"
    using unat_u8_add[of "last_idx rng" 1] by simp
  show ?thesis
    unfolding last_next_def Let_def using s by (auto simp: word_unat_eq_iff)
qed

lemma pool_full_iff:
  assumes ok: "pool_ok rng"
  shows "pool_full rng \<longleftrightarrow> Suc (length (pending rng)) = unat (count rng)"
proof -
  have L: "unat (last_idx rng) < unat (count rng)" "unat (first rng) < unat (count rng)"
    using ok unfolding pool_ok_def by (simp_all add: word_less_nat_alt)
  show ?thesis
    unfolding pool_full_def word_unat_eq_iff unat_last_next[OF ok] pending_length[OF ok]
    using L by auto
qed

lemma pool_empty_iff:
  assumes ok: "pool_ok rng"
  shows "first rng = last_idx rng \<longleftrightarrow> pending rng = []"
proof -
  have L: "unat (last_idx rng) < unat (count rng)" "unat (first rng) < unat (count rng)"
    using ok unfolding pool_ok_def by (simp_all add: word_less_nat_alt)
  have "pending rng = [] \<longleftrightarrow> length (pending rng) = 0" by simp
  also have "\<dots> \<longleftrightarrow> unat (first rng) = unat (last_idx rng)"
    unfolding pending_length[OF ok] using L by auto
  finally show ?thesis by (simp add: word_unat_eq_iff)
qed

lemma pending_bound:
  assumes ok: "pool_ok rng"
  shows "length (pending rng) < unat (count rng)"
proof -
  have L: "unat (last_idx rng) < unat (count rng)" "unat (first rng) < unat (count rng)"
    using ok unfolding pool_ok_def by (simp_all add: word_less_nat_alt)
  show ?thesis unfolding pending_length[OF ok] using L by auto
qed

lemma put_full: "pool_full rng \<Longrightarrow> rng_pool_put rng store byte = (- ENOBUFS, rng)"
  unfolding rng_pool_put_def pool_full_def by simp

lemma put_probe: "\<not> pool_full rng \<Longrightarrow> rng_pool_put rng False byte = (- EBUSY, rng)"
  unfolding rng_pool_put_def pool_full_def by simp

lemma put_store_eq:
  "\<not> pool_full rng \<Longrightarrow>
   rng_pool_put rng True byte =
     (let rng' = rng\<lparr>rand := (rand rng)[unat (last_idx rng) := byte], last_idx := last_next rng\<rparr>
      in (if pool_full rng' then 0 else - EBUSY, rng'))"
  unfolding rng_pool_put_def pool_full_def by (simp add: Let_def)

lemma take_drop_update_end:
  assumes "F \<le> L" "L < length R"
  shows "take (Suc L - F) (drop F (R[L := b])) = take (L - F) (drop F R) @ [b]"
proof -
  have "Suc L - F = Suc (L - F)" using assms by simp
  moreover have "L - F < length (drop F (R[L := b]))" using assms by simp
  ultimately have "take (Suc L - F) (drop F (R[L := b])) =
      take (L - F) (drop F (R[L := b])) @ [drop F (R[L := b]) ! (L - F)]"
    by (simp add: take_Suc_conv_app_nth)
  also have "take (L - F) (drop F (R[L := b])) = take (L - F) (drop F R)"
    using assms by (simp add: drop_take[symmetric] del: drop_take)
  also have "drop F (R[L := b]) ! (L - F) = b" using assms by simp
  finally show ?thesis .
qed

lemma drop_update_end:
  assumes "F \<le> L" "Suc L = length R"
  shows "drop F (R[L := b]) = take (L - F) (drop F R) @ [b]"
proof -
  have "drop F (R[L := b]) = take (Suc L - F) (drop F (R[L := b]))" using assms by simp
  then show ?thesis using take_drop_update_end[of F L R b] assms by simp
qed

lemma put_store_pending:
  fixes byte :: u8_t
  assumes ok: "pool_ok rng" and nf: "\<not> pool_full rng"
  defines "rng' \<equiv> rng\<lparr>rand := (rand rng)[unat (last_idx rng) := byte], last_idx := last_next rng\<rparr>"
  shows "pool_ok rng'" and "pending rng' = pending rng @ [byte]"
proof -
  let ?F = "unat (first rng)" and ?L = "unat (last_idx rng)" and ?C = "unat (count rng)"
  let ?R = "rand rng"
  have L: "?L < ?C" "?F < ?C" "length ?R = ?C"
    using ok unfolding pool_ok_def by (simp_all add: word_less_nat_alt)
  note ln = unat_last_next[OF ok]
  have nfn: "unat (last_next rng) \<noteq> ?F"
    using nf unfolding pool_full_def by (simp add: word_unat_eq_iff)
  show ok': "pool_ok rng'"
    unfolding pool_ok_def rng'_def using L ln by (simp add: word_less_nat_alt)
  show "pending rng' = pending rng @ [byte]"
  proof (cases "?F \<le> ?L")
    case True
    then have pd: "pending rng = take (?L - ?F) (drop ?F ?R)"
      unfolding pending_def by (simp add: word_le_nat_alt)
    show ?thesis
    proof (cases "Suc ?L = ?C")
      case wrap: True
      then have z: "unat (last_next rng) = 0" using ln by simp
      then have F0: "0 < ?F" using nfn by simp
      have "pending rng' = drop ?F (?R[?L := byte])"
        unfolding pending_def rng'_def using z F0 L by (simp add: word_le_nat_alt)
      also have "\<dots> = take (?L - ?F) (drop ?F ?R) @ [byte]"
        using True wrap L by (intro drop_update_end) simp_all
      finally show ?thesis using pd by simp
    next
      case False
      then have z: "unat (last_next rng) = Suc ?L" using ln by simp
      have "pending rng' = take (Suc ?L - ?F) (drop ?F (?R[?L := byte]))"
        unfolding pending_def rng'_def using z True by (simp add: word_le_nat_alt)
      also have "\<dots> = take (?L - ?F) (drop ?F ?R) @ [byte]"
        using True L by (intro take_drop_update_end) simp_all
      finally show ?thesis using pd by simp
    qed
  next
    case False
    then have pd: "pending rng = drop ?F ?R @ take ?L ?R"
      using pending_split(1)[OF ok] by (simp add: word_le_nat_alt)
    have z: "unat (last_next rng) = Suc ?L" using ln False L by auto
    have lt: "Suc ?L < ?F" using z nfn False by simp
    have "pending rng' = drop ?F (?R[?L := byte]) @ take (Suc ?L) (?R[?L := byte])"
      unfolding pending_def rng'_def using z lt L by (simp add: word_le_nat_alt)
    also have "\<dots> = drop ?F ?R @ take ?L ?R @ [byte]"
      using lt L by (simp add: take_Suc_conv_app_nth)
    finally show ?thesis using pd by simp
  qed
qed

lemma put_count: "count (snd (rng_pool_put rng store b)) = count rng"
  and put_threshold: "threshold (snd (rng_pool_put rng store b)) = threshold rng"
  by (simp_all add: rng_pool_put_def Let_def)

lemma put_ok:
  assumes ok: "pool_ok rng"
  shows "pool_ok (snd (rng_pool_put rng store b))"
proof (cases "pool_full rng \<or> \<not> store")
  case True
  then show ?thesis using ok by (cases "pool_full rng") (auto simp: put_full put_probe)
next
  case False
  then show ?thesis using put_store_pending(1)[OF ok, of b] by (simp add: put_store_eq Let_def)
qed

lemma put_pending:
  assumes ok: "pool_ok rng"
  shows "pending (snd (rng_pool_put rng store b)) =
         (if store \<and> \<not> pool_full rng then pending rng @ [b] else pending rng)"
proof (cases "pool_full rng \<or> \<not> store")
  case True
  then show ?thesis by (cases "pool_full rng") (auto simp: put_full put_probe)
next
  case False
  then show ?thesis using put_store_pending(2)[OF ok, of b] by (simp add: put_store_eq Let_def)
qed

lemma put_ret:
  assumes ok: "pool_ok rng"
  shows "fst (rng_pool_put rng store b) =
         (if pool_full rng then - ENOBUFS
          else if store \<and> Suc (Suc (length (pending rng))) = unat (count rng) then 0
          else - EBUSY)"
proof (cases "pool_full rng \<or> \<not> store")
  case True
  then show ?thesis by (cases "pool_full rng") (auto simp: put_full put_probe)
next
  case False
  let ?rng' = "rng\<lparr>rand := (rand rng)[unat (last_idx rng) := b], last_idx := last_next rng\<rparr>"
  have "pool_full ?rng' \<longleftrightarrow> Suc (length (pending ?rng')) = unat (count ?rng')"
    using put_store_pending(1)[OF ok, of b] False by (intro pool_full_iff) simp
  then show ?thesis
    using False put_store_pending(2)[OF ok, of b] by (simp add: put_store_eq Let_def)
qed

lemma put_ret_full: "fst (rng_pool_put rng store b) \<noteq> - EBUSY \<longleftrightarrow> pool_full (snd (rng_pool_put rng store b))"
  by (simp add: rng_pool_put_def pool_full_def Let_def EBUSY_def ENOBUFS_def)

lemma put_no_store: "snd (rng_pool_put rng False b) = rng"
  by (simp add: rng_pool_put_def)

lemma pool_init_ok:
  assumes "length (rand rng) = unat len" "0 < len"
  shows "pool_ok (rng_pool_init rng len thr)" and "pending (rng_pool_init rng len thr) = []"
  using assms by (simp_all add: pool_ok_def rng_pool_init_def pending_def)

lemma put_bytes_pending:
  assumes "pool_ok rng" "length (pending rng) + length bs < unat (count rng)"
  shows "pool_ok (put_bytes rng bs) \<and> pending (put_bytes rng bs) = pending rng @ bs \<and>
         count (put_bytes rng bs) = count rng \<and> threshold (put_bytes rng bs) = threshold rng"
  using assms
proof (induction bs arbitrary: rng)
  case Nil
  then show ?case by simp
next
  case (Cons b bs)
  have nf: "\<not> pool_full rng"
    using pool_full_iff[OF Cons.prems(1)] Cons.prems(2) by simp
  let ?rng1 = "snd (rng_pool_put rng True b)"
  have ok1: "pool_ok ?rng1" by (rule put_ok[OF Cons.prems(1)])
  have p1: "pending ?rng1 = pending rng @ [b]"
    using put_pending[OF Cons.prems(1), of True b] nf by simp
  have c1: "count ?rng1 = count rng" "threshold ?rng1 = threshold rng"
    by (rule put_count, rule put_threshold)
  have "length (pending ?rng1) + length bs < unat (count ?rng1)"
    using Cons.prems(2) p1 c1 by simp
  from Cons.IH[OF ok1 this] show ?case using p1 c1 by simp
qed

section \<open>Sequences of pool operations\<close>

lemma run_op_inv:
  assumes ok: "pool_ok rng" and op: "op_ok op"
  shows "case run_op op (rng, length (pending rng), hw) of
           (rng', k, hw') \<Rightarrow> pool_ok rng' \<and> count rng' = count rng \<and> k = length (pending rng')"
proof (cases op)
  case (Put store b)
  obtain ret rng' where p: "rng_pool_put rng store b = (ret, rng')"
    by (cases "rng_pool_put rng store b")
  have "pool_ok rng'" "count rng' = count rng"
    using put_ok[OF ok, of store b] put_count[of rng store b] p by simp_all
  moreover have "pending rng' = (if store \<and> \<not> pool_full rng then pending rng @ [b] else pending rng)"
    using put_pending[OF ok, of store b] p by simp
  moreover have "ret = - ENOBUFS \<longleftrightarrow> pool_full rng"
    using put_ret[OF ok, of store b] p by (auto simp: ENOBUFS_def EBUSY_def)
  ultimately show ?thesis unfolding Put using p by simp
next
  case (Get octets dst)
  obtain r rng' dst' hw' where g: "rng_pool_get rng octets dst hw = (r, rng', dst', hw')"
    by (cases "rng_pool_get rng octets dst hw")
  have len: "unat octets \<le> length dst" using op Get by simp
  have post: "get_post rng octets dst hw (r, rng', dst', hw')"
    using rng_pool_get_post[OF ok len, of hw] g by simp
  let ?m = "min (unat octets) (length (pending rng))"
  from post have a: "unat r = unat octets - ?m" "pool_ok rng'" "pending rng' = drop ?m (pending rng)"
    and c: "rng' = rng\<lparr>first := first rng'\<rparr>"
    unfolding get_post_def Let_def by simp_all
  have "count rng' = count rng" by (subst c) simp
  moreover have "length (pending rng) - (unat octets - unat r) = length (pending rng')"
    using a by auto
  ultimately show ?thesis unfolding Get using g a by simp
qed

lemma run_ops_inv:
  assumes "pool_ok rng" "\<forall>op \<in> set ops. op_ok op"
  shows "case run_ops ops (rng, length (pending rng), hw) of
           (rng', k, hw') \<Rightarrow> pool_ok rng' \<and> count rng' = count rng \<and> k = length (pending rng')"
  using assms
proof (induction ops arbitrary: rng hw)
  case Nil
  then show ?case by (simp add: run_ops_def)
next
  case (Cons op ops)
  obtain rng1 k1 hw1 where s: "run_op op (rng, length (pending rng), hw) = (rng1, k1, hw1)"
    by (cases "run_op op (rng, length (pending rng), hw)")
  have i: "pool_ok rng1" "count rng1 = count rng" "k1 = length (pending rng1)"
    using run_op_inv[OF Cons.prems(1), of op hw] Cons.prems(2) s by simp_all
  have "case run_ops ops (rng1, length (pending rng1), hw1) of
           (rng', k, hw') \<Rightarrow> pool_ok rng' \<and> count rng' = count rng1 \<and> k = length (pending rng')"
    using Cons.prems(2) by (intro Cons.IH[OF i(1)]) simp
  then show ?case using s i by (simp add: run_ops_def)
qed

section \<open>The interrupt handler\<close>

lemma isr_sampled:
  assumes "event_valrdy hw"
  shows "isr dev hw =
     (case rng_pool_put (isr_pool dev) True (rng_value hw) of (r1, p1) \<Rightarrow>
        if r1 = - EBUSY then (dev\<lparr>isr_pool := p1\<rparr>, nrf_rng_event_clear hw)
        else
          (case rng_pool_put (thr_pool dev) (r1 = - ENOBUFS) (rng_value hw) of (r2, p2) \<Rightarrow>
             (dev\<lparr>isr_pool := p1, thr_pool := p2, sem_sync := k_sem_give (sem_sync dev)\<rparr>,
              if r2 \<noteq> - EBUSY then nrf_rng_task_trigger NRF_RNG_TASK_STOP (nrf_rng_event_clear hw)
              else nrf_rng_event_clear hw)))"
  using assms
  by (simp add: isr_def random_byte_get_def Let_def split: prod.splits)

lemma isr_not_sampled: "\<not> event_valrdy hw \<Longrightarrow> isr dev hw = (dev, hw)"
  by (simp add: isr_def random_byte_get_def EAGAIN_def)

lemma isr_thr_ok:
  assumes "pool_ok (thr_pool dev)"
  shows "pool_ok (thr_pool (fst (isr dev hw)))"
proof (cases "event_valrdy hw")
  case True
  obtain r1 p1 where a: "rng_pool_put (isr_pool dev) True (rng_value hw) = (r1, p1)"
    by (cases "rng_pool_put (isr_pool dev) True (rng_value hw)")
  obtain r2 p2 where b: "rng_pool_put (thr_pool dev) (r1 = - ENOBUFS) (rng_value hw) = (r2, p2)"
    by (cases "rng_pool_put (thr_pool dev) (r1 = - ENOBUFS) (rng_value hw)")
  have "pool_ok p2" using put_ok[OF assms, of "r1 = - ENOBUFS" "rng_value hw"] b by simp
  then show ?thesis unfolding isr_sampled[OF True] a using assms b by simp
next
  case False
  then show ?thesis using assms by (simp add: isr_not_sampled)
qed

section \<open>Extraction from interrupt context\<close>

lemma unat_ucast_u16_u8: "unat (ucast (w :: u16_t) :: u8_t) = unat w mod 256"
  by (simp add: unsigned_ucast_eq take_bit_eq_mod)

lemma get_entropy_isr_nowait:
  assumes "flags AND ENTROPY_BUSYWAIT = 0"
  shows "entropy_nrf5_get_entropy_isr dev buf len flags hw samples =
     (case rng_pool_get (isr_pool dev) (ucast len) buf hw of
        (r, p, buf', hw') \<Rightarrow> Some (uint r, dev\<lparr>isr_pool := p\<rparr>, buf', hw'))"
  using assms by (simp add: entropy_nrf5_get_entropy_isr_def split: prod.splits)

lemma get_entropy_isr_nowait_post:
  assumes "flags AND ENTROPY_BUSYWAIT = 0" "pool_ok (isr_pool dev)" "unat len \<le> length buf"
  shows "entropy_nrf5_get_entropy_isr dev buf len flags hw samples =
           (case rng_pool_get (isr_pool dev) (word_of_nat (unat len mod 256)) buf hw of
              (r, p, buf', hw') \<Rightarrow> Some (uint r, dev\<lparr>isr_pool := p\<rparr>, buf', hw')) \<and>
         (case entropy_nrf5_get_entropy_isr dev buf len flags hw samples of
            None \<Rightarrow> False
          | Some (ret, dev', buf', hw') \<Rightarrow>
              (let n = unat len mod 256; m = min n (length (pending (isr_pool dev))) in
                 m \<le> 255 \<and> ret = int (n - m) \<and>
                 buf' = take (n - m) buf @ rev (take m (pending (isr_pool dev))) @ drop n buf \<and>
                 pending (isr_pool dev') = drop m (pending (isr_pool dev)) \<and>
                 (if unat len mod 256 = 0
                  then ret = 0 \<and> buf' = buf \<and> isr_pool dev' = isr_pool dev else True)))"
proof -
  let ?o = "ucast len :: u8_t"
  have o: "unat ?o = unat len mod 256" by (rule unat_ucast_u16_u8)
  have oo: "word_of_nat (unat len mod 256) = ?o"
    using o by (metis of_nat_unat ucast_id)
  have le: "unat ?o \<le> length buf" using o assms(3) by (simp add: le_trans[OF mod_less_eq_dividend])
  obtain r p buf' hw' where g: "rng_pool_get (isr_pool dev) ?o buf hw = (r, p, buf', hw')"
    by (cases "rng_pool_get (isr_pool dev) ?o buf hw")
  have e: "entropy_nrf5_get_entropy_isr dev buf len flags hw samples =
           Some (uint r, dev\<lparr>isr_pool := p\<rparr>, buf', hw')"
    unfolding get_entropy_isr_nowait[OF assms(1)] g by simp
  have post: "get_post (isr_pool dev) ?o buf hw (r, p, buf', hw')"
    using rng_pool_get_post[OF assms(2) le, of hw] g by simp
  let ?m = "min (unat len mod 256) (length (pending (isr_pool dev)))"
  from post have a: "unat r = unat len mod 256 - ?m"
    "pending p = drop ?m (pending (isr_pool dev))"
    "buf' = take (unat len mod 256 - ?m) buf @ rev (take ?m (pending (isr_pool dev)))
            @ drop (unat len mod 256) buf"
    unfolding get_post_def Let_def o by simp_all
  have "unat len mod 256 < 256" by simp
  then have m: "?m \<le> 255" by simp
  have ret: "uint r = int (unat len mod 256 - ?m)" using a(1) by (metis uint_nat)
  have z: "r = 0 \<and> buf' = buf \<and> p = isr_pool dev" if "unat len mod 256 = 0"
  proof -
    have "?o = 0" using o that by (simp add: unat_eq_zero[symmetric] del: unat_eq_zero)
    then show ?thesis using g get_zero_unchanged[OF assms(2), of buf hw] by simp
  qed
  show ?thesis
    unfolding e oo g Let_def using a(2,3) m ret z by auto
qed

lemma get_entropy_isr_busywait_ret:
  assumes "flags AND ENTROPY_BUSYWAIT \<noteq> 0"
    and "entropy_nrf5_get_entropy_isr dev buf len flags hw samples = Some (ret, dev', buf', hw')"
  shows "ret = uint len \<and> dev' = dev"
  using assms
  by (auto simp: entropy_nrf5_get_entropy_isr_def Let_def split: if_splits option.splits)

section \<open>Blocking extraction\<close>

lemma wait_sync_thr_ok:
  assumes "pool_ok (thr_pool dev)" "wait_sync dev hw samples = Some (dev', hw', samples')"
  shows "pool_ok (thr_pool dev')"
  using assms
proof (induction dev hw samples rule: wait_sync.induct)
  case (1 dev hw)
  then show ?case by (auto split: option.splits)
next
  case (2 dev hw v samples)
  show ?case
  proof (cases "k_sem_take (sem_sync dev)")
    case None
    obtain d1 h1 where i: "isr dev (hw\<lparr>event_valrdy := True, rng_value := v\<rparr>) = (d1, h1)"
      by (cases "isr dev (hw\<lparr>event_valrdy := True, rng_value := v\<rparr>)")
    have "pool_ok (thr_pool d1)"
      using isr_thr_ok[OF "2.prems"(1), of "hw\<lparr>event_valrdy := True, rng_value := v\<rparr>"] i by simp
    moreover have "wait_sync d1 h1 samples = Some (dev', hw', samples')"
      using "2.prems"(2) None i by simp
    ultimately show ?thesis using "2.IH"[OF None i[symmetric]] by simp
  next
    case (Some a)
    then show ?thesis using 2 by auto
  qed
qed

lemma get_entropy_chunk_frame:
  assumes "pool_ok (thr_pool dev)" "unat len8 \<le> length buf"
    and "get_entropy_chunk dev buf len8 hw samples = Some (dev', buf', hw', samples')"
  shows "pool_ok (thr_pool dev') \<and> length buf' = length buf \<and>
         drop (unat len8) buf' = drop (unat len8) buf"
  using assms
proof (induction dev buf len8 hw samples rule: get_entropy_chunk.induct)
  case (1 dev buf len8 hw samples)
  show ?case
  proof (cases "len8 = 0")
    case True
    then show ?thesis using "1.prems" by simp
  next
    case False
    obtain sem where sem: "k_sem_take (sem_lock dev) = Some sem"
      using "1.prems"(3) False by (cases "k_sem_take (sem_lock dev)") simp_all
    obtain r thr1 buf1 hw1 where g: "rng_pool_get (thr_pool dev) len8 buf hw = (r, thr1, buf1, hw1)"
      by (cases "rng_pool_get (thr_pool dev) len8 buf hw")
    have post: "get_post (thr_pool dev) len8 buf hw (r, thr1, buf1, hw1)"
      using rng_pool_get_post[OF "1.prems"(1,2), of hw] g by simp
    let ?m = "min (unat len8) (length (pending (thr_pool dev)))"
    from post have a: "unat r = unat len8 - ?m" "pool_ok thr1"
      "buf1 = take (unat len8 - ?m) buf @ rev (take ?m (pending (thr_pool dev))) @ drop (unat len8) buf"
      unfolding get_post_def Let_def by simp_all
    have l1: "length buf1 = length buf" using a(3) "1.prems"(2) by auto
    have d1: "drop (unat len8) buf1 = drop (unat len8) buf" using a(3) "1.prems"(2) by auto
    have rl: "unat r \<le> unat len8" using a(1) by simp
    let ?dev1 = "dev\<lparr>sem_lock := k_sem_give sem, thr_pool := thr1\<rparr>"
    have ok1: "pool_ok (thr_pool ?dev1)" using a(2) by simp
    have rb: "unat r \<le> length buf1" using rl l1 "1.prems"(2) by simp
    have step: "pool_ok (thr_pool dev') \<and> length buf' = length buf1 \<and>
                drop (unat r) buf' = drop (unat r) buf1"
    proof (cases "r = 0")
      case True
      have "get_entropy_chunk ?dev1 buf1 r hw1 samples = Some (dev', buf', hw', samples')"
        using "1.prems"(3) False sem g True by simp
      then show ?thesis using True ok1 by simp
    next
      case nz: False
      obtain d2 h2 s2 where w: "wait_sync ?dev1 hw1 samples = Some (d2, h2, s2)"
        using "1.prems"(3) False sem g nz
        by (cases "wait_sync ?dev1 hw1 samples") auto
      have ok2: "pool_ok (thr_pool d2)" by (rule wait_sync_thr_ok[OF ok1 w])
      have rec: "get_entropy_chunk d2 buf1 r h2 s2 = Some (dev', buf', hw', samples')"
        using "1.prems"(3) False sem g nz w by simp
      show ?thesis
        by (rule "1.IH"(1)[OF False sem g[symmetric] refl refl refl nz w refl refl ok2 rb rec])
    qed
    have "drop (unat len8) buf' = drop (unat len8 - unat r) (drop (unat r) buf')"
      using rl by simp
    also have "\<dots> = drop (unat len8 - unat r) (drop (unat r) buf1)" using step by simp
    also have "\<dots> = drop (unat len8) buf1" using rl by simp
    finally show ?thesis using step l1 d1 by simp
  qed
qed

lemma get_entropy_frame:
  assumes "pool_ok (thr_pool dev)" "unat len \<le> length buf"
    and "entropy_nrf5_get_entropy dev buf len hw samples = Some (ret, dev', buf', hw', samples')"
  shows "ret = 0 \<and> length buf' = length buf \<and> drop 255 buf' = drop 255 buf"
  using assms
proof (induction dev buf len hw samples rule: entropy_nrf5_get_entropy.induct)
  case (1 dev buf len hw samples)
  show ?case
  proof (cases "len = 0")
    case True
    then show ?thesis using "1.prems" by simp
  next
    case False
    define len8 :: u8_t where "len8 = (if len > UINT8_MAX then ucast UINT8_MAX else ucast len)"
    have l8: "unat len8 \<le> 255" "unat len8 \<le> unat len"
      unfolding len8_def
      by (simp_all add: UINT8_MAX_def unsigned_ucast_eq take_bit_eq_mod word_less_nat_alt)
    have u: "unat (ucast len8 :: u16_t) = unat len8"
      using l8(1) by (simp add: unsigned_ucast_eq take_bit_eq_mod)
    have sub: "unat (len - ucast len8) \<le> unat len"
      using l8(2) u by (simp add: unat_sub word_le_nat_alt)
    obtain d1 b1 h1 s1 where c: "get_entropy_chunk dev buf len8 hw samples = Some (d1, b1, h1, s1)"
      using "1.prems"(3) False unfolding len8_def
      by (cases "get_entropy_chunk dev buf len8 hw samples") (auto simp: Let_def len8_def)
    have f: "pool_ok (thr_pool d1)" "length b1 = length buf"
      "drop (unat len8) b1 = drop (unat len8) buf"
      using get_entropy_chunk_frame[OF "1.prems"(1) _ c] l8(2) "1.prems"(2) by simp_all
    have rec: "entropy_nrf5_get_entropy d1 b1 (len - ucast len8) h1 s1 =
               Some (ret, dev', buf', hw', samples')"
      using "1.prems"(3) False c unfolding len8_def by (simp add: Let_def)
    have lb: "unat (len - ucast len8) \<le> length b1"
      using sub f(2) "1.prems"(2) by simp
    have ih: "ret = 0 \<and> length buf' = length b1 \<and> drop 255 buf' = drop 255 b1"
      by (rule "1.IH"[OF False len8_def refl c refl refl refl f(1) lb rec])
    have "drop 255 b1 = drop (255 - unat len8) (drop (unat len8) b1)"
      using l8(1) by simp
    also have "\<dots> = drop 255 buf" using f(3) l8(1) by simp
    finally show ?thesis using ih f(2) by simp
  qed
qed

section \<open>The example states\<close>

lemma scenario_pool_eq:
  "scenario_pool = \<lparr>count = 8, threshold = 2, first = 0, last_idx = 7,
                     rand = [0x11, 0x12, 0x13, 0x14, 0x15, 0x16, 0x17, 0]\<rparr>"
  by (simp add: scenario_pool_def pool8_def mem8_def scenario_bytes_def rng_pool_init_def
      rng_pool_put_def last_next_def)

lemma pool3_eq:
  "pool3 = \<lparr>count = 8, threshold = 2, first = 0, last_idx = 3,
             rand = [0x11, 0x12, 0x13, 0, 0, 0, 0, 0]\<rparr>"
  by (simp add: pool3_def pool8_def mem8_def rng_pool_init_def rng_pool_put_def last_next_def)

lemma pool_round_trip_values:
  "rng_pool_get (put_bytes (rng_pool_init mem8 8 2) scenario_bytes) 7 [0, 0, 0, 0, 0, 0, 0] hw0 =
     (0, scenario_pool\<lparr>first := 7\<rparr>, [0x17, 0x16, 0x15, 0x14, 0x13, 0x12, 0x11],
      nrf_rng_task_trigger NRF_RNG_TASK_START hw0)"
  "rng_pool_put (scenario_pool\<lparr>first := 7\<rparr>) True 0x42 =
     (- EBUSY, scenario_pool\<lparr>first := 7, last_idx := 0,
                 rand := [0x11, 0x12, 0x13, 0x14, 0x15, 0x16, 0x17, 0x42]\<rparr>)"
  "rng_pool_put (rng_pool_init mem8 8 2) True 0x42 =
     (- EBUSY, (rng_pool_init mem8 8 2)\<lparr>rand := [0x42, 0, 0, 0, 0, 0, 0, 0], last_idx := 1\<rparr>)"
  by code_simp+

section \<open>The claims\<close>

text \<open>
  Claim C1, as amended. In an invocation of the handler that sampled a byte,
  the byte is first put into the ISR pool. When that put returns \<open>-EBUSY\<close>
  (stored, room left), the thread pool is not touched and the wake semaphore is
  not given. When it returns \<open>0\<close> or \<open>-ENOBUFS\<close> (the ISR pool is full), the
  thread pool's put is called, with the store flag set only for \<open>-ENOBUFS\<close>:
  the thread pool is written only when the ISR pool had no room for the byte.
  The wake semaphore is given exactly when the thread pool's put is called,
  whatever it returns.
\<close>

theorem isr_thread_tier:
  assumes "event_valrdy hw"
  shows "case rng_pool_put (isr_pool dev) True (rng_value hw) of
           (ret, p) \<Rightarrow>
             (case isr dev hw of
                (dev', hw') \<Rightarrow>
                  isr_pool dev' = p \<and>
                  (if ret = - EBUSY
                   then thr_pool dev' = thr_pool dev \<and> sem_sync dev' = sem_sync dev
                   else thr_pool dev' =
                          snd (rng_pool_put (thr_pool dev) (ret = - ENOBUFS) (rng_value hw)) \<and>
                        sem_sync dev' = k_sem_give (sem_sync dev)) \<and>
                  (if ret = - ENOBUFS then True else thr_pool dev' = thr_pool dev) \<and>
                  sem_gives (sem_sync dev') =
                    sem_gives (sem_sync dev) + (if ret = - EBUSY then 0 else 1))"
proof -
  obtain r1 p1 where a: "rng_pool_put (isr_pool dev) True (rng_value hw) = (r1, p1)"
    by (cases "rng_pool_put (isr_pool dev) True (rng_value hw)")
  obtain r2 p2 where b: "rng_pool_put (thr_pool dev) (r1 = - ENOBUFS) (rng_value hw) = (r2, p2)"
    by (cases "rng_pool_put (thr_pool dev) (r1 = - ENOBUFS) (rng_value hw)")
  have n: "p2 = thr_pool dev" if "r1 \<noteq> - ENOBUFS"
    using that b put_no_store[of "thr_pool dev" "rng_value hw"] by simp
  show ?thesis
  proof (cases "r1 = - EBUSY")
    case True
    then have "r1 \<noteq> - ENOBUFS" by (simp add: EBUSY_def ENOBUFS_def)
    with True show ?thesis unfolding isr_sampled[OF assms] a by simp
  next
    case False
    show ?thesis
    proof (cases "r1 = - ENOBUFS")
      case True
      with False b show ?thesis unfolding isr_sampled[OF assms] a
        by (simp add: k_sem_give_def)
    next
      case nb: False
      with False b n show ?thesis unfolding isr_sampled[OF assms] a
        by (simp add: k_sem_give_def)
    qed
  qed
qed

theorem isr_thread_tier_witness:
  "event_valrdy (hw_ready 0x42) \<and>
   rng_pool_put (isr_pool dev_isr_full) True (rng_value (hw_ready 0x42)) = (- ENOBUFS, scenario_pool) \<and>
   (case rng_pool_put (isr_pool dev_isr_full) True (rng_value (hw_ready 0x42)) of
      (ret, p) \<Rightarrow>
        (case isr dev_isr_full (hw_ready 0x42) of
           (dev', hw') \<Rightarrow>
             isr_pool dev' = p \<and>
             (if ret = - EBUSY
              then thr_pool dev' = thr_pool dev_isr_full \<and> sem_sync dev' = sem_sync dev_isr_full
              else thr_pool dev' =
                     snd (rng_pool_put (thr_pool dev_isr_full) (ret = - ENOBUFS)
                            (rng_value (hw_ready 0x42))) \<and>
                   sem_sync dev' = k_sem_give (sem_sync dev_isr_full)) \<and>
             (if ret = - ENOBUFS then True else thr_pool dev' = thr_pool dev_isr_full) \<and>
             sem_gives (sem_sync dev') =
               sem_gives (sem_sync dev_isr_full) + (if ret = - EBUSY then 0 else 1)))"
proof -
  have h: "event_valrdy (hw_ready 0x42)" by (simp add: hw_ready_def)
  have v: "rng_pool_put (isr_pool dev_isr_full) True (rng_value (hw_ready 0x42)) =
           (- ENOBUFS, scenario_pool)"
    by code_simp
  from h v isr_thread_tier[OF h, where dev = dev_isr_full]
  show ?thesis by blast
qed

text \<open>
  Counterexample to claim C1 as stated: the ISR pool is already full and the
  thread pool is empty; the ISR pool's put reports \<open>-ENOBUFS\<close>, and in the same
  invocation the thread pool is written and the wake semaphore is given.
\<close>

theorem isr_thread_tier_counterexample:
  "fst (rng_pool_put (isr_pool dev_isr_full) True 0x42) = - ENOBUFS \<and>
   thr_pool dev_isr_full = pool8 \<and>
   thr_pool (fst (isr dev_isr_full (hw_ready 0x42))) =
     pool8\<lparr>rand := [0x42, 0, 0, 0, 0, 0, 0, 0], last_idx := 1\<rparr> \<and>
   sem_gives (sem_sync dev_isr_full) = 0 \<and>
   sem_gives (sem_sync (fst (isr dev_isr_full (hw_ready 0x42)))) = 1"
  by code_simp

text \<open>
  Claim C2, which the code does not meet. Without the busy-wait flag the call
  returns at once (it is one call of \<open>rng_pool_get\<close>, which has no loop but the
  bounded copy loops). What it returns is the shortfall:
  the low 8 bits of the requested length minus the number of bytes delivered,
  not the number of bytes delivered. On the ISR pool holding three bytes a
  request for five returns 2 after delivering 3; the busy-wait path of the same
  function returns the requested length, which is the number it delivered.
\<close>

theorem get_entropy_isr_returns_shortfall:
  assumes "flags AND ENTROPY_BUSYWAIT = 0" "pool_ok (isr_pool dev)" "unat len \<le> length buf"
  shows "case entropy_nrf5_get_entropy_isr dev buf len flags hw samples of
           None \<Rightarrow> False
         | Some (ret, dev', buf', hw') \<Rightarrow>
             (let delivered = length (pending (isr_pool dev)) - length (pending (isr_pool dev'))
              in delivered = min (unat len mod 256) (length (pending (isr_pool dev))) \<and>
                 ret = int (unat len mod 256) - int delivered)"
  using get_entropy_isr_nowait_post[OF assms, of hw samples]
  by (auto simp: Let_def split: option.splits)

theorem get_entropy_isr_returns_shortfall_witness:
  "(0 :: u32_t) AND ENTROPY_BUSYWAIT = 0 \<and> pool_ok (isr_pool dev_isr3) \<and>
   unat (5 :: u16_t) \<le> length [0, 0, 0, 0, 0 :: u8_t] \<and>
   pending (isr_pool dev_isr3) = [0x11, 0x12, 0x13] \<and>
   entropy_nrf5_get_entropy_isr dev_isr3 [0, 0, 0, 0, 0] 5 0 hw0 [] =
     Some (2, dev_isr3\<lparr>isr_pool := pool3\<lparr>first := 3\<rparr>\<rparr>, [0, 0, 0x13, 0x12, 0x11],
           nrf_rng_task_trigger NRF_RNG_TASK_START hw0) \<and>
   (case entropy_nrf5_get_entropy_isr dev_isr3 [0, 0, 0, 0, 0] 5 0 hw0 [] of
      None \<Rightarrow> False
    | Some (ret, dev', buf', hw') \<Rightarrow>
        (let delivered = length (pending (isr_pool dev_isr3)) - length (pending (isr_pool dev'))
         in delivered = min (unat (5 :: u16_t) mod 256) (length (pending (isr_pool dev_isr3))) \<and>
            ret = int (unat (5 :: u16_t) mod 256) - int delivered))"
proof -
  have h: "(0 :: u32_t) AND ENTROPY_BUSYWAIT = 0" "pool_ok (isr_pool dev_isr3)"
    "unat (5 :: u16_t) \<le> length [0, 0, 0, 0, 0 :: u8_t]"
    by (simp_all add: dev_isr3_def pool3_eq pool_ok_def)
  have p: "pending (isr_pool dev_isr3) = [0x11, 0x12, 0x13]"
    by (simp add: dev_isr3_def pool3_eq pending_def)
  have v: "entropy_nrf5_get_entropy_isr dev_isr3 [0, 0, 0, 0, 0] 5 0 hw0 [] =
     Some (2, dev_isr3\<lparr>isr_pool := pool3\<lparr>first := 3\<rparr>\<rparr>, [0, 0, 0x13, 0x12, 0x11],
           nrf_rng_task_trigger NRF_RNG_TASK_START hw0)"
    by code_simp
  from h p v get_entropy_isr_returns_shortfall[OF h, where hw = hw0 and samples = "[]"]
  show ?thesis by blast
qed

text \<open>
  Claim C3, as amended. A get takes the oldest bytes first, whatever puts stored
  them: after the bytes \<open>bs\<close> were put into a well-formed pool holding
  \<open>pending rng\<close>, with at most \<open>count - 1\<close> bytes pending in all, a get of
  \<open>octets\<close> takes the first \<open>m\<close> bytes of \<open>pending rng @ bs\<close>, \<open>m\<close> the smaller
  of the request and the occupancy, and leaves the rest pending. It writes them
  to the destination from index \<open>octets - 1\<close> downwards, so the buffer reads in
  the reverse of the order of insertion; the \<open>octets - m\<close> leading positions and
  everything from index \<open>octets\<close> on keep their contents.
\<close>

theorem rng_pool_get_reversed_fifo:
  assumes "pool_ok rng" "length (pending rng) + length bs < unat (count rng)"
    and "unat octets \<le> length dst"
  shows "case rng_pool_get (put_bytes rng bs) octets dst hw of
           (r, rng', dst', hw') \<Rightarrow>
             (let q = pending rng @ bs; m = min (unat octets) (length q) in
                unat r = unat octets - m \<and>
                dst' = take (unat octets - m) dst @ rev (take m q) @ drop (unat octets) dst \<and>
                pending rng' = drop m q)"
proof -
  note pb = put_bytes_pending[OF assms(1,2)]
  obtain r rng' dst' hw' where g: "rng_pool_get (put_bytes rng bs) octets dst hw = (r, rng', dst', hw')"
    by (cases "rng_pool_get (put_bytes rng bs) octets dst hw")
  have "get_post (put_bytes rng bs) octets dst hw (r, rng', dst', hw')"
    using rng_pool_get_post[of "put_bytes rng bs" octets dst hw] pb assms(3) g by simp
  then show ?thesis unfolding g get_post_def Let_def using pb by simp
qed

theorem rng_pool_get_reversed_fifo_witness:
  "pool_ok pool8 \<and> length (pending pool8) + length scenario_bytes < unat (count pool8) \<and>
   unat (5 :: u8_t) \<le> length [0, 0, 0, 0, 0 :: u8_t] \<and>
   (case rng_pool_get (put_bytes pool8 scenario_bytes) 5 [0, 0, 0, 0, 0] hw0 of
      (r, rng', dst', hw') \<Rightarrow>
        r = 0 \<and> dst' = [0x15, 0x14, 0x13, 0x12, 0x11] \<and> pending rng' = [0x16, 0x17])"
proof -
  have a: "pool_ok pool8" by (simp add: pool8_def mem8_def pool_ok_def rng_pool_init_def)
  have p: "pending pool8 = []" by (simp add: pool8_def mem8_def pending_def rng_pool_init_def)
  have b: "length (pending pool8) + length scenario_bytes < unat (count pool8)"
    unfolding p by (simp add: pool8_def mem8_def rng_pool_init_def scenario_bytes_def)
  have c: "unat (5 :: u8_t) \<le> length [0, 0, 0, 0, 0 :: u8_t]" by simp
  show ?thesis
    using a b c rng_pool_get_reversed_fifo[OF a b c, where hw = hw0]
    by (auto simp: p scenario_bytes_def Let_def word_unat_eq_iff split: prod.splits)
qed

text \<open>
  Counterexample to claim C3 as stated, on the scenario of the specification: after
  \<open>0x11\<close> to \<open>0x17\<close> were put into the pool of capacity 8, a get of five
  bytes leaves \<open>0x15, 0x14, 0x13, 0x12, 0x11\<close> in the destination buffer, not
  \<open>0x11, 0x12, 0x13, 0x14, 0x15\<close>.
\<close>

theorem rng_pool_get_order_counterexample:
  "rng_pool_get scenario_pool 5 [0, 0, 0, 0, 0] hw0 =
     (0, scenario_pool\<lparr>first := 5\<rparr>, [0x15, 0x14, 0x13, 0x12, 0x11], hw0) \<and>
   fst (snd (snd (rng_pool_get scenario_pool 5 [0, 0, 0, 0, 0] hw0))) \<noteq> [0x11, 0x12, 0x13, 0x14, 0x15]"
proof -
  have "rng_pool_get scenario_pool 5 [0, 0, 0, 0, 0] hw0 =
     (0, scenario_pool\<lparr>first := 5\<rparr>, [0x15, 0x14, 0x13, 0x12, 0x11], hw0)"
    by code_simp
  then show ?thesis by simp
qed

text \<open>
  Claim C4, which the code does not meet. When \<open>entropy_nrf5_get_entropy\<close>
  returns, it returns 0 and the buffer keeps its length, but no position from
  index 255 on was written, whatever the requested length: every chunk is
  copied to the start of the same buffer. For a request of 256 bytes into a
  zeroed buffer, with the handler storing 1, 2, ..., 255 and then \<open>0xEE\<close>, the
  call consumes all 256 values and returns 0; position 255 is still 0, and
  position 0 holds \<open>0xEE\<close>, written over the byte 255 of the first chunk.
\<close>

theorem get_entropy_never_writes_past_255:
  assumes "pool_ok (thr_pool dev)" "unat len \<le> length buf"
    and "entropy_nrf5_get_entropy dev buf len hw samples = Some (ret, dev', buf', hw', samples')"
  shows "ret = 0 \<and> length buf' = length buf \<and> drop 255 buf' = drop 255 buf"
  using assms by (rule get_entropy_frame)

theorem get_entropy_never_writes_past_255_witness:
  "pool_ok (thr_pool dev_isr_full) \<and> unat (256 :: u16_t) \<le> length buf256 \<and>
   map_option (\<lambda>(ret, dev', buf', hw', samples'). (ret, take 2 buf', drop 253 buf', samples'))
     (entropy_nrf5_get_entropy dev_isr_full buf256 256 hw0 samples256) =
     Some (0, [0xEE, 0xFE], [0x02, 0x01, 0x00], []) \<and>
   map_option (\<lambda>(ret, dev', buf', hw', samples'). drop 255 buf')
     (entropy_nrf5_get_entropy dev_isr_full buf256 256 hw0 samples256) =
     Some (drop 255 buf256)"
proof -
  have h: "pool_ok (thr_pool dev_isr_full)" "unat (256 :: u16_t) \<le> length buf256"
    by (simp_all add: dev_isr_full_def pool8_def mem8_def rng_pool_init_def pool_ok_def buf256_def)
  have v: "map_option (\<lambda>(ret, dev', buf', hw', samples'). (ret, take 2 buf', drop 253 buf', samples'))
     (entropy_nrf5_get_entropy dev_isr_full buf256 256 hw0 samples256) =
     Some (0, [0xEE, 0xFE], [0x02, 0x01, 0x00], [])"
    by code_simp
  then obtain ret dev' buf' hw' samples' where
    e: "entropy_nrf5_get_entropy dev_isr_full buf256 256 hw0 samples256 =
        Some (ret, dev', buf', hw', samples')"
    by (cases "entropy_nrf5_get_entropy dev_isr_full buf256 256 hw0 samples256") auto
  from get_entropy_never_writes_past_255[OF h e]
  have "drop 255 buf' = drop 255 buf256" by simp
  then have "map_option (\<lambda>(ret, dev', buf', hw', samples'). drop 255 buf')
     (entropy_nrf5_get_entropy dev_isr_full buf256 256 hw0 samples256) =
     Some (drop 255 buf256)"
    unfolding e by simp
  with h v show ?thesis by blast
qed

text \<open>
  Claim C5. In an invocation of the handler that sampled a byte, the stop task
  is triggered if and only if the ISR pool's put and the thread pool's put both
  report a full pool, that is, neither returns \<open>-EBUSY\<close>; and that is the case
  if and only if both pools are full when the handler returns. One full pool
  beside one that still has room triggers no stop.
\<close>

theorem isr_stop_iff_both_full:
  assumes "event_valrdy hw"
  shows "case isr dev hw of
           (dev', hw') \<Rightarrow>
             (let r1 = fst (rng_pool_put (isr_pool dev) True (rng_value hw));
                  r2 = fst (rng_pool_put (thr_pool dev) (r1 = - ENOBUFS) (rng_value hw))
              in tasks hw' =
                   tasks hw @ (if r1 \<noteq> - EBUSY \<and> r2 \<noteq> - EBUSY then [NRF_RNG_TASK_STOP] else []) \<and>
                 ((r1 \<noteq> - EBUSY \<and> r2 \<noteq> - EBUSY) \<longleftrightarrow>
                    (pool_full (isr_pool dev') \<and> pool_full (thr_pool dev'))))"
proof -
  obtain r1 p1 where a: "rng_pool_put (isr_pool dev) True (rng_value hw) = (r1, p1)"
    by (cases "rng_pool_put (isr_pool dev) True (rng_value hw)")
  obtain r2 p2 where b: "rng_pool_put (thr_pool dev) (r1 = - ENOBUFS) (rng_value hw) = (r2, p2)"
    by (cases "rng_pool_put (thr_pool dev) (r1 = - ENOBUFS) (rng_value hw)")
  have f1: "r1 \<noteq> - EBUSY \<longleftrightarrow> pool_full p1"
    using put_ret_full[of "isr_pool dev" True "rng_value hw"] a by simp
  have f2: "r2 \<noteq> - EBUSY \<longleftrightarrow> pool_full p2"
    using put_ret_full[of "thr_pool dev" "r1 = - ENOBUFS" "rng_value hw"] b by simp
  have e1: "fst (rng_pool_put (isr_pool dev) True (rng_value hw)) = r1"
    using a by simp
  have e2: "fst (rng_pool_put (thr_pool dev) (r1 = - ENOBUFS) (rng_value hw)) = r2"
    using b by simp
  show ?thesis
  proof (cases "r1 = - EBUSY")
    case True
    then have "isr dev hw = (dev\<lparr>isr_pool := p1\<rparr>, nrf_rng_event_clear hw)"
      unfolding isr_sampled[OF assms] a by simp
    then show ?thesis
      unfolding Let_def e1 e2 using True f1 by (simp add: nrf_rng_event_clear_def)
  next
    case False
    then have "isr dev hw =
        (dev\<lparr>isr_pool := p1, thr_pool := p2, sem_sync := k_sem_give (sem_sync dev)\<rparr>,
         if r2 \<noteq> - EBUSY then nrf_rng_task_trigger NRF_RNG_TASK_STOP (nrf_rng_event_clear hw)
         else nrf_rng_event_clear hw)"
      unfolding isr_sampled[OF assms] a using b by simp
    then show ?thesis
      unfolding Let_def e1 e2 using False f1 f2
      by (simp add: nrf_rng_event_clear_def nrf_rng_task_trigger_def)
  qed
qed

theorem isr_stop_iff_both_full_witness:
  "event_valrdy (hw_ready 0x42) \<and>
   isr dev_both_full (hw_ready 0x42) =
     (dev_both_full\<lparr>sem_sync := k_sem_give (sem_sync dev_both_full)\<rparr>,
      hw0\<lparr>rng_value := 0x42, tasks := [NRF_RNG_TASK_STOP]\<rparr>) \<and>
   (case isr dev_both_full (hw_ready 0x42) of
      (dev', hw') \<Rightarrow>
        (let r1 = fst (rng_pool_put (isr_pool dev_both_full) True (rng_value (hw_ready 0x42)));
             r2 = fst (rng_pool_put (thr_pool dev_both_full) (r1 = - ENOBUFS) (rng_value (hw_ready 0x42)))
         in tasks hw' =
              tasks (hw_ready 0x42) @ (if r1 \<noteq> - EBUSY \<and> r2 \<noteq> - EBUSY then [NRF_RNG_TASK_STOP] else []) \<and>
            ((r1 \<noteq> - EBUSY \<and> r2 \<noteq> - EBUSY) \<longleftrightarrow>
               (pool_full (isr_pool dev') \<and> pool_full (thr_pool dev')))))"
proof -
  have h: "event_valrdy (hw_ready 0x42)" by (simp add: hw_ready_def)
  have v: "isr dev_both_full (hw_ready 0x42) =
     (dev_both_full\<lparr>sem_sync := k_sem_give (sem_sync dev_both_full)\<rparr>,
      hw0\<lparr>rng_value := 0x42, tasks := [NRF_RNG_TASK_STOP]\<rparr>)"
    by code_simp
  from h v isr_stop_iff_both_full[OF h, where dev = dev_both_full]
  show ?thesis by blast
qed

text \<open>
  Claim C6, as amended. A get on a well-formed pool triggers the start task
  exactly when the occupancy it leaves is strictly below the threshold, once,
  and not when the occupancy equals the threshold. The occupancy it leaves is
  the occupancy before minus the bytes delivered. So a get that crosses the
  threshold downwards always triggers a start; nothing limits the starts to one
  for each crossing.
\<close>

theorem rng_pool_get_start:
  assumes "pool_ok rng" "unat octets \<le> length dst"
  shows "case rng_pool_get rng octets dst hw of
           (r, rng', dst', hw') \<Rightarrow>
             length (pending rng') = length (pending rng) - (unat octets - unat r) \<and>
             hw' = (if length (pending rng') < unat (threshold rng)
                    then nrf_rng_task_trigger NRF_RNG_TASK_START hw else hw) \<and>
             starts hw' = starts hw + (if length (pending rng') < unat (threshold rng) then 1 else 0)"
proof -
  obtain r rng' dst' hw' where g: "rng_pool_get rng octets dst hw = (r, rng', dst', hw')"
    by (cases "rng_pool_get rng octets dst hw")
  have "get_post rng octets dst hw (r, rng', dst', hw')"
    using rng_pool_get_post[OF assms, of hw] g by simp
  then show ?thesis
    unfolding g get_post_def Let_def
    by (auto simp: starts_def nrf_rng_task_trigger_def)
qed

theorem rng_pool_get_start_witness:
  "pool_ok scenario_pool \<and> unat (5 :: u8_t) \<le> length [0, 0, 0, 0, 0 :: u8_t] \<and>
   unat (6 :: u8_t) \<le> length [0, 0, 0, 0, 0, 0 :: u8_t] \<and>
   length (pending scenario_pool) = 7 \<and> threshold scenario_pool = 2 \<and>
   (case rng_pool_get scenario_pool 5 [0, 0, 0, 0, 0] hw0 of
      (r, rng', dst', hw') \<Rightarrow> length (pending rng') = 2 \<and> hw' = hw0 \<and> starts hw' = 0) \<and>
   (case rng_pool_get scenario_pool 6 [0, 0, 0, 0, 0, 0] hw0 of
      (r, rng', dst', hw') \<Rightarrow>
        length (pending rng') = 1 \<and> hw' = nrf_rng_task_trigger NRF_RNG_TASK_START hw0 \<and>
        starts hw' = 1)"
proof -
  have a: "pool_ok scenario_pool" by (simp add: scenario_pool_eq pool_ok_def)
  have b: "unat (5 :: u8_t) \<le> length [0, 0, 0, 0, 0 :: u8_t]"
    "unat (6 :: u8_t) \<le> length [0, 0, 0, 0, 0, 0 :: u8_t]" by simp_all
  have p: "length (pending scenario_pool) = 7" "threshold scenario_pool = 2"
    by (simp_all add: scenario_pool_eq pending_def)
  have r: "fst (rng_pool_get scenario_pool 5 [0, 0, 0, 0, 0] hw0) = 0"
    "fst (rng_pool_get scenario_pool 6 [0, 0, 0, 0, 0, 0] hw0) = 0"
    by code_simp+
  have s: "starts hw0 = 0" by (simp add: starts_def hw0_def)
  show ?thesis
    using a b p rng_pool_get_start[OF a b(1), of hw0] rng_pool_get_start[OF a b(2), of hw0] r s
    by (auto split: prod.splits)
qed

text \<open>
  Counterexample to claim C6 as stated, two gets in a row: the first takes six of the
  seven pending bytes and crosses the threshold 2 (occupancy 7 to 1), the second
  takes the last byte (occupancy 1 to 0). The occupancy crosses the threshold
  once and the start task is triggered twice.
\<close>

theorem start_per_crossing_counterexample:
  "length (pending scenario_pool) = 7 \<and> threshold scenario_pool = 2 \<and>
   get_seq scenario_pool [(6, [0, 0, 0, 0, 0, 0]), (1, [0])] hw0 =
     (scenario_pool\<lparr>first := 7\<rparr>, hw0\<lparr>tasks := [NRF_RNG_TASK_START, NRF_RNG_TASK_START]\<rparr>) \<and>
   crossings scenario_pool [(6, [0, 0, 0, 0, 0, 0]), (1, [0])] hw0 = 1 \<and>
   starts (snd (get_seq scenario_pool [(6, [0, 0, 0, 0, 0, 0]), (1, [0])] hw0)) = 2"
  by code_simp

text \<open>
  Claim C7. When the pool is full, \<open>rng_pool_put\<close> returns \<open>-ENOBUFS\<close> and
  leaves the pool as it was, indices and bytes; and so does every further put,
  with or without the store flag, as long as no get comes in between.
\<close>

theorem put_full_no_mutation:
  assumes "pool_full rng"
  shows "rng_pool_put rng store byte = (- ENOBUFS, rng) \<and>
         put_seq rng ps = (replicate (length ps) (- ENOBUFS), rng)"
proof
  show "rng_pool_put rng store byte = (- ENOBUFS, rng)"
    using assms by (rule put_full)
  show "put_seq rng ps = (replicate (length ps) (- ENOBUFS), rng)"
  proof (induction ps)
    case Nil
    show ?case by simp
  next
    case (Cons p ps)
    obtain s b where p: "p = (s, b)" by (cases p)
    show ?case unfolding p using Cons put_full[OF assms] by simp
  qed
qed

theorem put_full_no_mutation_witness:
  "pool_full scenario_pool \<and>
   rng_pool_put scenario_pool True 0x99 = (- ENOBUFS, scenario_pool) \<and>
   put_seq scenario_pool [(True, 0x99), (False, 0x01), (True, 0x02)] =
     ([- ENOBUFS, - ENOBUFS, - ENOBUFS], scenario_pool)"
proof -
  have f: "pool_full scenario_pool"
    by (simp add: scenario_pool_eq pool_full_def last_next_def)
  show ?thesis
    using f put_full_no_mutation[OF f, where store = True and byte = "0x99"
        and ps = "[(True, 0x99), (False, 0x01), (True, 0x02)]"]
    by (simp del: put_seq.simps)
qed

text \<open>
  Claim C8. From a pool initialised with a capacity of at least 2 and a threshold
  below the capacity, every sequence of well-formed puts and gets keeps \<open>count\<close>
  and keeps \<open>first\<close> and \<open>last\<close> below it. With \<open>k\<close> the number of bytes stored
  and not yet delivered, the pool is empty (\<open>k = 0\<close>) exactly when
  \<open>first = last\<close>, and full (\<open>k = count - 1\<close>) exactly when the index after
  \<open>last\<close>, which is \<open>last + 1\<close> modulo \<open>count\<close>, equals \<open>first\<close>.
\<close>

theorem pool_indices_invariant:
  assumes "2 \<le> unat len" "thr < len" "length (rand rng) = unat len"
    and "list_all op_ok ops"
  shows "case run_ops ops (rng_pool_init rng len thr, 0, hw) of
           (rng', k, hw') \<Rightarrow>
             count rng' = len \<and> first rng' < len \<and> last_idx rng' < len \<and>
             (k = 0 \<longleftrightarrow> first rng' = last_idx rng') \<and>
             (k = unat len - 1 \<longleftrightarrow> last_next rng' = first rng') \<and>
             unat (last_next rng') = (unat (last_idx rng') + 1) mod unat len"
proof -
  have pos: "0 < len" using assms(1) by (simp add: word_less_nat_alt)
  note init = pool_init_ok[OF assms(3) pos, of thr]
  obtain rng' k hw' where r: "run_ops ops (rng_pool_init rng len thr, 0, hw) = (rng', k, hw')"
    by (cases "run_ops ops (rng_pool_init rng len thr, 0, hw)")
  have "case run_ops ops (rng_pool_init rng len thr, length (pending (rng_pool_init rng len thr)), hw) of
           (rng', k, hw') \<Rightarrow> pool_ok rng' \<and> count rng' = count (rng_pool_init rng len thr)
              \<and> k = length (pending rng')"
    using assms(4) by (intro run_ops_inv[OF init(1)]) (simp add: list_all_iff)
  then have i: "pool_ok rng'" "count rng' = len" "k = length (pending rng')"
    using r init(2) by (simp_all add: rng_pool_init_def)
  have b: "first rng' < len" "last_idx rng' < len"
    using i(1,2) by (simp_all add: pool_ok_def)
  have e: "k = 0 \<longleftrightarrow> first rng' = last_idx rng'"
    using pool_empty_iff[OF i(1)] i(3) by simp
  have f: "k = unat len - 1 \<longleftrightarrow> last_next rng' = first rng'"
    using pool_full_iff[OF i(1)] i(2,3) assms(1) by (auto simp: pool_full_def)
  have n: "unat (last_next rng') = (unat (last_idx rng') + 1) mod unat len"
    using unat_last_next[OF i(1)] i(2) b(2) by (auto simp: word_less_nat_alt)
  show ?thesis unfolding r using i(2) b e f n by simp
qed

theorem pool_indices_invariant_witness:
  "2 \<le> unat (8 :: u8_t) \<and> (2 :: u8_t) < 8 \<and> length (rand mem8) = unat (8 :: u8_t) \<and>
   list_all op_ok ex_ops \<and>
   run_ops ex_ops (rng_pool_init mem8 8 2, 0, hw0) =
     (\<lparr>count = 8, threshold = 2, first = 2, last_idx = 3,
        rand = [0x11, 0x12, 0x14, 0, 0, 0, 0, 0]\<rparr>, 1,
      hw0\<lparr>tasks := [NRF_RNG_TASK_START, NRF_RNG_TASK_START]\<rparr>) \<and>
   (case run_ops ex_ops (rng_pool_init mem8 8 2, 0, hw0) of
      (rng', k, hw') \<Rightarrow>
        count rng' = 8 \<and> first rng' < 8 \<and> last_idx rng' < 8 \<and>
        (k = 0 \<longleftrightarrow> first rng' = last_idx rng') \<and>
        (k = unat (8 :: u8_t) - 1 \<longleftrightarrow> last_next rng' = first rng') \<and>
        unat (last_next rng') = (unat (last_idx rng') + 1) mod unat (8 :: u8_t))"
proof -
  have h: "2 \<le> unat (8 :: u8_t)" "(2 :: u8_t) < 8" "length (rand mem8) = unat (8 :: u8_t)"
    by (simp_all add: mem8_def)
  have o: "list_all op_ok ex_ops" by (simp add: ex_ops_def)
  have v: "run_ops ex_ops (rng_pool_init mem8 8 2, 0, hw0) =
     (\<lparr>count = 8, threshold = 2, first = 2, last_idx = 3,
        rand = [0x11, 0x12, 0x14, 0, 0, 0, 0, 0]\<rparr>, 1,
      hw0\<lparr>tasks := [NRF_RNG_TASK_START, NRF_RNG_TASK_START]\<rparr>)"
    by code_simp
  from h o v pool_indices_invariant[OF h o, where hw = hw0]
  show ?thesis by blast
qed

text \<open>
  Claim C9. Putting \<open>count - 1\<close> bytes into a freshly initialised pool and
  getting \<open>count - 1\<close> bytes back returns all of them (shortfall 0) and leaves the
  pool empty, with \<open>first = last\<close> (both are \<open>count - 1\<close> then, not 0). The
  next put returns what it returns on the freshly initialised pool and leaves
  the same bytes pending: the byte alone when it was stored.
\<close>

theorem pool_round_trip:
  assumes "2 \<le> unat len" "thr < len" "length (rand rng) = unat len"
    and "length bs = unat len - 1" "length bs \<le> length dst"
  shows "case rng_pool_get (put_bytes (rng_pool_init rng len thr) bs) (len - 1) dst hw of
           (r, rng', dst', hw') \<Rightarrow>
             r = 0 \<and> first rng' = last_idx rng' \<and> pending rng' = [] \<and>
             take (length bs) dst' = rev bs \<and>
             fst (rng_pool_put rng' store b) = fst (rng_pool_put (rng_pool_init rng len thr) store b) \<and>
             pending (snd (rng_pool_put rng' store b)) =
               pending (snd (rng_pool_put (rng_pool_init rng len thr) store b)) \<and>
             pending (snd (rng_pool_put rng' store b)) = (if store then [b] else [])"
proof -
  let ?p0 = "rng_pool_init rng len thr"
  have pos: "0 < len" using assms(1) by (simp add: word_less_nat_alt)
  note init = pool_init_ok[OF assms(3) pos, of thr]
  have c0: "count ?p0 = len" by (simp add: rng_pool_init_def)
  have "length (pending ?p0) + length bs < unat (count ?p0)"
    using init(2) c0 assms(1,4) by simp
  note pb = put_bytes_pending[OF init(1) this]
  let ?p1 = "put_bytes ?p0 bs"
  have n: "unat (len - 1) = unat len - 1"
    using assms(1) by (simp add: unat_sub word_le_nat_alt)
  have dl: "unat (len - 1) \<le> length dst" using n assms(4,5) by simp
  obtain r rng' dst' hw' where g: "rng_pool_get ?p1 (len - 1) dst hw = (r, rng', dst', hw')"
    by (cases "rng_pool_get ?p1 (len - 1) dst hw")
  have post: "get_post ?p1 (len - 1) dst hw (r, rng', dst', hw')"
    using rng_pool_get_post[of ?p1 "len - 1" dst hw] pb dl g by simp
  have m: "min (unat (len - 1)) (length (pending ?p1)) = length bs"
    using pb init(2) n assms(4) by simp
  from post have a: "unat r = 0" "pool_ok rng'" "pending rng' = []"
      "dst' = rev bs @ drop (length bs) dst"
    and c: "rng' = ?p1\<lparr>first := first rng'\<rparr>"
    unfolding get_post_def Let_def m using pb init(2) n assms(4) by simp_all
  have cnt: "count rng' = len" using pb c0 by (subst c) simp
  have r0: "r = 0" using a(1) by (simp add: unat_eq_zero)
  have e: "first rng' = last_idx rng'" using pool_empty_iff[OF a(2)] a(3) by simp
  have nf: "\<not> pool_full rng'" "\<not> pool_full ?p0"
    using pool_full_iff[OF a(2)] pool_full_iff[OF init(1)] a(3) init(2) cnt c0 assms(1) by simp_all
  have s: "fst (rng_pool_put rng' store b) = fst (rng_pool_put ?p0 store b)"
    unfolding put_ret[OF a(2)] put_ret[OF init(1)] using nf a(3) init(2) cnt c0 by simp
  have p: "pending (snd (rng_pool_put rng' store b)) = (if store then [b] else [])"
      "pending (snd (rng_pool_put ?p0 store b)) = (if store then [b] else [])"
    unfolding put_pending[OF a(2)] put_pending[OF init(1)] using nf a(3) init(2) by simp_all
  show ?thesis unfolding g using r0 e a(3,4) s p by simp
qed

theorem pool_round_trip_witness:
  "2 \<le> unat (8 :: u8_t) \<and> (2 :: u8_t) < 8 \<and> length (rand mem8) = unat (8 :: u8_t) \<and>
   length scenario_bytes = unat (8 :: u8_t) - 1 \<and>
   length scenario_bytes \<le> length [0, 0, 0, 0, 0, 0, 0 :: u8_t] \<and>
   rng_pool_get (put_bytes (rng_pool_init mem8 8 2) scenario_bytes) 7 [0, 0, 0, 0, 0, 0, 0] hw0 =
     (0, scenario_pool\<lparr>first := 7\<rparr>, [0x17, 0x16, 0x15, 0x14, 0x13, 0x12, 0x11],
      nrf_rng_task_trigger NRF_RNG_TASK_START hw0) \<and>
   rng_pool_put (scenario_pool\<lparr>first := 7\<rparr>) True 0x42 =
     (- EBUSY, scenario_pool\<lparr>first := 7, last_idx := 0,
                 rand := [0x11, 0x12, 0x13, 0x14, 0x15, 0x16, 0x17, 0x42]\<rparr>) \<and>
   rng_pool_put (rng_pool_init mem8 8 2) True 0x42 =
     (- EBUSY, (rng_pool_init mem8 8 2)\<lparr>rand := [0x42, 0, 0, 0, 0, 0, 0, 0], last_idx := 1\<rparr>) \<and>
   (case rng_pool_get (put_bytes (rng_pool_init mem8 8 2) scenario_bytes) (8 - 1)
           [0, 0, 0, 0, 0, 0, 0] hw0 of
      (r, rng', dst', hw') \<Rightarrow>
        r = 0 \<and> first rng' = last_idx rng' \<and> pending rng' = [] \<and>
        take (length scenario_bytes) dst' = rev scenario_bytes \<and>
        fst (rng_pool_put rng' True 0x42) = fst (rng_pool_put (rng_pool_init mem8 8 2) True 0x42) \<and>
        pending (snd (rng_pool_put rng' True 0x42)) =
          pending (snd (rng_pool_put (rng_pool_init mem8 8 2) True 0x42)) \<and>
        pending (snd (rng_pool_put rng' True 0x42)) = (if True then [0x42] else []))"
proof -
  have h: "2 \<le> unat (8 :: u8_t)" "(2 :: u8_t) < 8" "length (rand mem8) = unat (8 :: u8_t)"
    "length scenario_bytes = unat (8 :: u8_t) - 1"
    "length scenario_bytes \<le> length [0, 0, 0, 0, 0, 0, 0 :: u8_t]"
    by (simp_all add: mem8_def scenario_bytes_def)
  note v = pool_round_trip_values
  from h v pool_round_trip[OF h, where hw = hw0 and store = True and b = "0x42"]
  show ?thesis by blast
qed

text \<open>
  Claim C10. Without the busy-wait flag, \<open>entropy_nrf5_get_entropy_isr\<close> reads
  the ISR pool with the low 8 bits of the 16-bit length, \<open>len mod 256\<close>. It
  delivers at most 255 bytes in one call, and for a length that is a multiple of
  256 it returns 0 with the buffer and the pool unchanged, as for a request
  that was fully served.
\<close>

theorem get_entropy_isr_truncates_length:
  assumes "flags AND ENTROPY_BUSYWAIT = 0" "pool_ok (isr_pool dev)" "unat len \<le> length buf"
  shows "entropy_nrf5_get_entropy_isr dev buf len flags hw samples =
           (case rng_pool_get (isr_pool dev) (word_of_nat (unat len mod 256)) buf hw of
              (r, p, buf', hw') \<Rightarrow> Some (uint r, dev\<lparr>isr_pool := p\<rparr>, buf', hw')) \<and>
         (case entropy_nrf5_get_entropy_isr dev buf len flags hw samples of
            None \<Rightarrow> False
          | Some (ret, dev', buf', hw') \<Rightarrow>
              (let n = unat len mod 256; m = min n (length (pending (isr_pool dev))) in
                 m \<le> 255 \<and> ret = int (n - m) \<and>
                 buf' = take (n - m) buf @ rev (take m (pending (isr_pool dev))) @ drop n buf \<and>
                 pending (isr_pool dev') = drop m (pending (isr_pool dev)) \<and>
                 (if unat len mod 256 = 0
                  then ret = 0 \<and> buf' = buf \<and> isr_pool dev' = isr_pool dev else True)))"
  using assms by (rule get_entropy_isr_nowait_post)

theorem get_entropy_isr_truncates_length_witness:
  "(0 :: u32_t) AND ENTROPY_BUSYWAIT = 0 \<and> pool_ok (isr_pool dev_isr3) \<and>
   unat (256 :: u16_t) \<le> length buf256 \<and> length (pending (isr_pool dev_isr3)) = 3 \<and>
   entropy_nrf5_get_entropy_isr dev_isr3 buf256 256 0 hw0 [] = Some (0, dev_isr3, buf256, hw0) \<and>
   entropy_nrf5_get_entropy_isr dev_isr3 buf256 256 0 hw0 [] =
     (case rng_pool_get (isr_pool dev_isr3) (word_of_nat (unat (256 :: u16_t) mod 256)) buf256 hw0 of
        (r, p, buf', hw') \<Rightarrow> Some (uint r, dev_isr3\<lparr>isr_pool := p\<rparr>, buf', hw'))"
proof -
  have h: "(0 :: u32_t) AND ENTROPY_BUSYWAIT = 0" "pool_ok (isr_pool dev_isr3)"
    "unat (256 :: u16_t) \<le> length buf256"
    by (simp_all add: dev_isr3_def pool3_eq pool_ok_def buf256_def)
  have p: "length (pending (isr_pool dev_isr3)) = 3"
    by (simp add: dev_isr3_def pool3_eq pending_def)
  have v: "entropy_nrf5_get_entropy_isr dev_isr3 buf256 256 0 hw0 [] =
           Some (0, dev_isr3, buf256, hw0)"
    by code_simp
  from h p v get_entropy_isr_truncates_length[OF h, where hw = hw0 and samples = "[]"]
  show ?thesis by blast
qed

end
